theory Spec2Isabelle
  imports Main "HOL-Library.Product_Lexorder"
begin

section \<open>JavaScript strings\<close>

text \<open>
  A JavaScript string is a sequence of UTF-16 code units. The model uses \<open>string\<close>
  (a list of 8-bit characters), that is, the strings whose code units are below 256
  (Latin-1). On that range the white space removed by \<open>String.prototype.trim\<close> and
  skipped by \<open>Number\<close> is TAB, LF, VT, FF, CR, SPACE and NBSP.
\<close>

abbreviation dquote :: char where
  "dquote \<equiv> CHR 0x22"

abbreviation comma :: char where
  "comma \<equiv> CHR 0x2C"

abbreviation newline :: char where
  "newline \<equiv> CHR 0x0A"

definition is_space :: "char \<Rightarrow> bool" where
  "is_space c \<longleftrightarrow> c \<in> set [CHR 0x09, CHR 0x0A, CHR 0x0B, CHR 0x0C, CHR 0x0D, CHR 0x20, CHR 0xA0]"

definition trim :: "string \<Rightarrow> string" where
  "trim s = rev (dropWhile is_space (rev (dropWhile is_space s)))"

text \<open>\<open>s.substring(a, b)\<close>: the arguments are swapped when \<open>a > b\<close> and clamped to the length.\<close>

definition substring :: "string \<Rightarrow> nat \<Rightarrow> nat \<Rightarrow> string" where
  "substring s a b = (let lo = min a b; hi = max a b in take (hi - lo) (drop lo s))"

text \<open>
  \<open>s.replace(/^"|"$/g, '')\<close>: the global replace deletes the matches found from left to
  right without overlap, so a quote at index 0 is deleted, and then a quote at the last
  index if that index is not 0 as well.
\<close>

definition strip_quotes :: "string \<Rightarrow> string" where
  "strip_quotes s =
     (let s1 = (case s of [] \<Rightarrow> [] | c # cs \<Rightarrow> if c = dquote then cs else s)
      in if s1 \<noteq> [] \<and> last s1 = dquote then butlast s1 else s1)"

text \<open>\<open>s.split('\n')\<close>: always at least one piece; the separator is not kept.\<close>

fun split_on :: "char \<Rightarrow> string \<Rightarrow> string \<Rightarrow> string list" where
  "split_on sep cur [] = [cur]"
| "split_on sep cur (c # cs) =
     (if c = sep then cur # split_on sep [] cs else split_on sep (cur @ [c]) cs)"

definition split_str :: "char \<Rightarrow> string \<Rightarrow> string list" where
  "split_str sep s = split_on sep [] s"

section \<open>The delimited-text parser: one line\<close>

text \<open>
  \<open>parseCSVLine\<close> (App.tsx, lines 187 to 204). The \<open>for\<close> loop over the index \<open>i\<close>
  with the variables \<open>start\<close>, \<open>inQuotes\<close> and \<open>result\<close> is the recursive function
  \<open>parseCSVLine_loop\<close>; the statement after the loop pushes the last field.
\<close>

definition clean_field :: "string \<Rightarrow> string" where
  "clean_field f = strip_quotes (trim f)"

function parseCSVLine_loop :: "string \<Rightarrow> nat \<Rightarrow> nat \<Rightarrow> bool \<Rightarrow> string list \<Rightarrow> string list" where
  "parseCSVLine_loop line i start inQuotes result =
     (if i < length line then
        (if line ! i = dquote then
           parseCSVLine_loop line (i + 1) start (\<not> inQuotes) result
         else if line ! i = comma \<and> \<not> inQuotes then
           parseCSVLine_loop line (i + 1) (i + 1) inQuotes
             (result @ [clean_field (substring line start i)])
         else parseCSVLine_loop line (i + 1) start inQuotes result)
      else result @ [clean_field (drop start line)])"
  by pat_completeness auto
termination
  by (relation "measure (\<lambda>(line, i, start, inQuotes, result). length line - i)") auto

declare parseCSVLine_loop.simps [simp del]

definition parseCSVLine :: "string \<Rightarrow> string list" where
  "parseCSVLine line = parseCSVLine_loop line 0 0 False []"

text \<open>
  The scanner as the specification words it: one pass over the characters, a flag toggled
  on every double quote, a field closed at every comma met while the flag is off. The
  quotes stay in the raw field.
\<close>

fun scan_fields :: "bool \<Rightarrow> string \<Rightarrow> string \<Rightarrow> string list" where
  "scan_fields inq cur [] = [cur]"
| "scan_fields inq cur (c # cs) =
     (if c = dquote then scan_fields (\<not> inq) (cur @ [c]) cs
      else if c = comma \<and> \<not> inq then cur # scan_fields inq [] cs
      else scan_fields inq (cur @ [c]) cs)"

section \<open>JavaScript numbers\<close>

text \<open>
  A Number is an IEEE 754 double. Every finite double is an integer multiple of the smallest
  subnormal \<open>2\<^sup>-\<^sup>1\<^sup>0\<^sup>7\<^sup>4\<close>, so \<open>Fin k\<close> stands for the value \<open>k \<times> 2\<^sup>-\<^sup>1\<^sup>0\<^sup>7\<^sup>4\<close>: the doubles are
  the \<open>Fin k\<close> with \<open>\<bar>k\<bar> < 2\<^sup>2\<^sup>0\<^sup>9\<^sup>8\<close> whose binary expansion has at most 53 significant bits.
  Negative zero is identified with zero: the program only adds, subtracts, compares,
  takes minima and maxima and divides by a positive length, and none of these tells the
  two zeros apart.
\<close>

datatype jsnum = NaN | NegInf | Fin int | PosInf

definition unit_exp :: nat where
  "unit_exp = 1074"

definition overflow_threshold :: int where
  "overflow_threshold = 2 ^ 2098"

text \<open>The number of binary digits of a positive integer.\<close>

function bit_length :: "int \<Rightarrow> nat" where
  "bit_length n = (if n \<le> 0 then 0 else Suc (bit_length (n div 2)))"
  by pat_completeness auto
termination
  by (relation "measure nat") auto

declare bit_length.simps [simp del]

text \<open>The quotient \<open>a / d\<close> rounded to the nearest integer, ties to the even one.\<close>

definition round_half_even :: "int \<Rightarrow> int \<Rightarrow> int" where
  "round_half_even a d =
     (let q = a div d; r = a mod d
      in if 2 * r < d then q else if d < 2 * r then q + 1 else if even q then q else q + 1)"

text \<open>
  Rounding of the magnitude \<open>a / d\<close> (in units of \<open>2\<^sup>-\<^sup>1\<^sup>0\<^sup>7\<^sup>4\<close>) to 53 significant bits:
  below \<open>2\<^sup>5\<^sup>3\<close> units (subnormals and the first binade) the doubles are one unit apart;
  a magnitude whose integer part has \<open>53 + sh\<close> bits is rounded to a multiple of \<open>2\<^sup>s\<^sup>h\<close>.
\<close>

definition round_mag :: "int \<Rightarrow> int \<Rightarrow> int" where
  "round_mag a d =
     (let sh = bit_length (a div d) - 53
      in round_half_even a (d * 2 ^ sh) * 2 ^ sh)"

text \<open>Round to nearest, ties to even, of \<open>p / q\<close> units (\<open>q > 0\<close>); overflow gives an infinity.\<close>

definition round_double :: "int \<Rightarrow> int \<Rightarrow> jsnum" where
  "round_double p q =
     (let m = round_mag \<bar>p\<bar> q
      in if overflow_threshold \<le> m then (if p < 0 then NegInf else PosInf)
         else Fin (if p < 0 then - m else m))"

text \<open>The Number nearest to an integer.\<close>

definition num_of_int :: "int \<Rightarrow> jsnum" where
  "num_of_int n = round_double (n * 2 ^ unit_exp) 1"

definition isNaN :: "jsnum \<Rightarrow> bool" where
  "isNaN x \<longleftrightarrow> x = NaN"

fun js_neg :: "jsnum \<Rightarrow> jsnum" where
  "js_neg NaN = NaN"
| "js_neg NegInf = PosInf"
| "js_neg PosInf = NegInf"
| "js_neg (Fin k) = Fin (- k)"

fun js_add :: "jsnum \<Rightarrow> jsnum \<Rightarrow> jsnum" where
  "js_add NaN y = NaN"
| "js_add x NaN = NaN"
| "js_add PosInf NegInf = NaN"
| "js_add NegInf PosInf = NaN"
| "js_add PosInf y = PosInf"
| "js_add x PosInf = PosInf"
| "js_add NegInf y = NegInf"
| "js_add x NegInf = NegInf"
| "js_add (Fin a) (Fin b) = round_double (a + b) 1"

definition js_sub :: "jsnum \<Rightarrow> jsnum \<Rightarrow> jsnum" where
  "js_sub x y = js_add x (js_neg y)"

text \<open>\<open>x / n\<close> for a length \<open>n\<close>; a length is never negative zero.\<close>

fun js_div_length :: "jsnum \<Rightarrow> nat \<Rightarrow> jsnum" where
  "js_div_length NaN n = NaN"
| "js_div_length PosInf n = PosInf"
| "js_div_length NegInf n = NegInf"
| "js_div_length (Fin a) n =
     (if n = 0 then (if a = 0 then NaN else if a < 0 then NegInf else PosInf)
      else round_double a (int n))"

text \<open>The comparisons \<open><\<close> and \<open>\<le>\<close> of IEEE 754: false whenever an operand is NaN.\<close>

fun js_less :: "jsnum \<Rightarrow> jsnum \<Rightarrow> bool" where
  "js_less NaN y = False"
| "js_less x NaN = False"
| "js_less x NegInf = False"
| "js_less PosInf y = False"
| "js_less NegInf y = True"
| "js_less x PosInf = True"
| "js_less (Fin a) (Fin b) = (a < b)"

definition js_le :: "jsnum \<Rightarrow> jsnum \<Rightarrow> bool" where
  "js_le x y \<longleftrightarrow> js_less x y \<or> (x = y \<and> x \<noteq> NaN)"

text \<open>\<open>Math.min\<close> and \<open>Math.max\<close> of an argument list: NaN if any argument is NaN.\<close>

definition js_min2 :: "jsnum \<Rightarrow> jsnum \<Rightarrow> jsnum" where
  "js_min2 x y = (if x = NaN \<or> y = NaN then NaN else if js_less y x then y else x)"

definition js_max2 :: "jsnum \<Rightarrow> jsnum \<Rightarrow> jsnum" where
  "js_max2 x y = (if x = NaN \<or> y = NaN then NaN else if js_less x y then y else x)"

definition Math_min :: "jsnum list \<Rightarrow> jsnum" where
  "Math_min xs = foldl js_min2 PosInf xs"

definition Math_max :: "jsnum list \<Rightarrow> jsnum" where
  "Math_max xs = foldl js_max2 NegInf xs"

subsection \<open>String to Number\<close>

text \<open>
  \<open>Number(s)\<close> and the coercion inside \<open>isNaN(s)\<close> for a string \<open>s\<close>, after the grammar
  \<open>StringNumericLiteral\<close> of ECMAScript: white space around the literal is skipped, the
  empty literal is 0, and the literal is a binary, octal or hexadecimal integer with its
  prefix and no sign, or an optionally signed \<open>Infinity\<close> or decimal literal with an
  optional fraction and exponent. Anything else is NaN. The value is the exact decimal
  value rounded to the nearest double.
\<close>

definition digit_of :: "char \<Rightarrow> int option" where
  "digit_of c =
     (let n = of_char c :: int
      in if 48 \<le> n \<and> n \<le> 57 then Some (n - 48)
         else if 97 \<le> n \<and> n \<le> 102 then Some (n - 87)
         else if 65 \<le> n \<and> n \<le> 70 then Some (n - 55)
         else None)"

fun digits_value :: "int \<Rightarrow> int \<Rightarrow> string \<Rightarrow> int option" where
  "digits_value base acc [] = Some acc"
| "digits_value base acc (c # cs) =
     (case digit_of c of
        None \<Rightarrow> None
      | Some d \<Rightarrow> if d < base then digits_value base (acc * base + d) cs else None)"

text \<open>One or more digits of the base.\<close>

definition parse_digits :: "int \<Rightarrow> string \<Rightarrow> int option" where
  "parse_digits base s = (if s = [] then None else digits_value base 0 s)"

text \<open>Zero or more decimal digits.\<close>

definition parse_digits_opt :: "string \<Rightarrow> int option" where
  "parse_digits_opt s = digits_value 10 0 s"

definition is_exp_char :: "char \<Rightarrow> bool" where
  "is_exp_char c \<longleftrightarrow> c = CHR ''e'' \<or> c = CHR ''E''"

text \<open>The exponent part after \<open>e\<close> or \<open>E\<close>: an optional sign and one or more digits.\<close>

definition parse_exponent :: "string \<Rightarrow> int option" where
  "parse_exponent s =
     (case s of
        [] \<Rightarrow> None
      | c # cs \<Rightarrow>
          if c = CHR ''+'' then parse_digits 10 cs
          else if c = CHR ''-'' then map_option uminus (parse_digits 10 cs)
          else parse_digits 10 s)"

text \<open>
  The digits before the exponent: \<open>digits\<close>, \<open>digits.\<close>, \<open>digits.digits\<close> or \<open>.digits\<close>.
  The result is the integer written by all the digits and the number of fraction digits.
\<close>

definition parse_mantissa :: "string \<Rightarrow> (int \<times> nat) option" where
  "parse_mantissa s =
     (let ip = takeWhile (\<lambda>c. c \<noteq> CHR ''.'') s; rest = dropWhile (\<lambda>c. c \<noteq> CHR ''.'') s
      in case rest of
           [] \<Rightarrow> map_option (\<lambda>n. (n, 0)) (parse_digits 10 ip)
         | dot # fp \<Rightarrow>
             if ip = [] \<and> fp = [] then None
             else map_option (\<lambda>n. (n, length fp)) (parse_digits_opt (ip @ fp)))"

text \<open>An unsigned decimal literal other than \<open>Infinity\<close>: mantissa \<open>m\<close> and decimal exponent \<open>e\<close>, the value being \<open>m \<times> 10\<^sup>e\<close>.\<close>

definition parse_unsigned_decimal :: "string \<Rightarrow> (int \<times> int) option" where
  "parse_unsigned_decimal s =
     (let mp = takeWhile (\<lambda>c. \<not> is_exp_char c) s; rest = dropWhile (\<lambda>c. \<not> is_exp_char c) s
      in case parse_mantissa mp of
           None \<Rightarrow> None
         | Some (m, fl) \<Rightarrow>
             (case rest of
                [] \<Rightarrow> Some (m, - int fl)
              | e # ep \<Rightarrow> map_option (\<lambda>x. (m, x - int fl)) (parse_exponent ep)))"

text \<open>The double nearest to \<open>\<plusminus> m \<times> 10\<^sup>e\<close>.\<close>

definition decimal_to_double :: "bool \<Rightarrow> int \<Rightarrow> int \<Rightarrow> jsnum" where
  "decimal_to_double neg m e =
     (let s = (if neg then - 1 else 1) :: int
      in if 0 \<le> e then round_double (s * m * 10 ^ nat e * 2 ^ unit_exp) 1
         else round_double (s * m * 2 ^ unit_exp) (10 ^ nat (- e)))"

definition parse_signed_decimal :: "bool \<Rightarrow> string \<Rightarrow> jsnum" where
  "parse_signed_decimal neg s =
     (if s = ''Infinity'' then (if neg then NegInf else PosInf)
      else case parse_unsigned_decimal s of
             None \<Rightarrow> NaN
           | Some (m, e) \<Rightarrow> decimal_to_double neg m e)"

definition radix_of_prefix :: "string \<Rightarrow> int option" where
  "radix_of_prefix s =
     (case s of
        c0 # c1 # ds \<Rightarrow>
          if c0 \<noteq> CHR ''0'' then None
          else if c1 = CHR ''x'' \<or> c1 = CHR ''X'' then Some 16
          else if c1 = CHR ''o'' \<or> c1 = CHR ''O'' then Some 8
          else if c1 = CHR ''b'' \<or> c1 = CHR ''B'' then Some 2
          else None
      | _ \<Rightarrow> None)"

definition StringToNumber :: "string \<Rightarrow> jsnum" where
  "StringToNumber s =
     (let t = trim s
      in if t = [] then Fin 0
         else case radix_of_prefix t of
                Some base \<Rightarrow>
                  (case parse_digits base (drop 2 t) of
                     None \<Rightarrow> NaN
                   | Some n \<Rightarrow> num_of_int n)
              | None \<Rightarrow>
                  if hd t = CHR ''+'' then parse_signed_decimal False (tl t)
                  else if hd t = CHR ''-'' then parse_signed_decimal True (tl t)
                  else parse_signed_decimal False t)"

section \<open>Values and rows\<close>

text \<open>
  The scalar values a row can hold. A row is a plain object; the model keeps its own
  properties as an association list in the order \<open>Object.keys\<close> lists them: the keys
  that are array indices (canonical decimal integers up to \<open>2\<^sup>3\<^sup>2 - 2\<close>) in ascending numeric
  order, then the other keys in the order of their creation.
\<close>

datatype jsval = Undefined | Null | Bool bool | Num jsnum | Str string

type_synonym row = "(string \<times> jsval) list"

definition array_index :: "string \<Rightarrow> int option" where
  "array_index k =
     (if k = ''0'' then Some 0
      else if k = [] \<or> hd k = CHR ''0'' then None
      else case digits_value 10 0 k of
             None \<Rightarrow> None
           | Some n \<Rightarrow> if n \<le> 4294967294 then Some n else None)"

fun insert_index :: "int \<Rightarrow> string \<Rightarrow> jsval \<Rightarrow> row \<Rightarrow> row" where
  "insert_index n k v [] = [(k, v)]"
| "insert_index n k v ((k', v') # r) =
     (case array_index k' of
        Some m \<Rightarrow> if n < m then (k, v) # (k', v') # r else (k', v') # insert_index n k v r
      | None \<Rightarrow> (k, v) # (k', v') # r)"

text \<open>
  The assignment \<open>row[k] = v\<close> of a scalar \<open>v\<close> to a plain object. An existing property keeps
  its place. Assigning a scalar to \<open>__proto__\<close> goes to the accessor inherited from
  \<open>Object.prototype\<close> and creates no property.
\<close>

definition obj_set :: "row \<Rightarrow> string \<Rightarrow> jsval \<Rightarrow> row" where
  "obj_set r k v =
     (if k = ''__proto__'' then r
      else if map_of r k \<noteq> None then map (\<lambda>(k', v'). if k' = k then (k', v) else (k', v')) r
      else case array_index k of
             Some n \<Rightarrow> insert_index n k v r
           | None \<Rightarrow> r @ [(k, v)])"

text \<open>
  The read \<open>row[k]\<close>. A name that is not an own property reads as \<open>undefined\<close>; the members
  inherited from \<open>Object.prototype\<close> are functions and objects, which every test made on
  the result here (\<open>typeof \<dots> === 'number'\<close>) treats like \<open>undefined\<close>.
\<close>

definition obj_get :: "row \<Rightarrow> string \<Rightarrow> jsval" where
  "obj_get r k = (case map_of r k of None \<Rightarrow> Undefined | Some v \<Rightarrow> v)"

definition Object_keys :: "row \<Rightarrow> string list" where
  "Object_keys r = map fst r"

definition typeof_number :: "jsval \<Rightarrow> bool" where
  "typeof_number v = (case v of Num n \<Rightarrow> True | _ \<Rightarrow> False)"

text \<open>The coercion \<open>ToNumber\<close> that the operator \<open>-\<close> and the global \<open>isNaN\<close> apply to a scalar.\<close>

fun ToNumber :: "jsval \<Rightarrow> jsnum" where
  "ToNumber Undefined = NaN"
| "ToNumber Null = Fin 0"
| "ToNumber (Bool b) = (if b then num_of_int 1 else Fin 0)"
| "ToNumber (Num n) = n"
| "ToNumber (Str s) = StringToNumber s"

text \<open>The test \<open>typeof val === 'number' && !isNaN(val)\<close>.\<close>

definition is_valid_number :: "jsval \<Rightarrow> bool" where
  "is_valid_number val \<longleftrightarrow> typeof_number val \<and> \<not> isNaN (ToNumber val)"

section \<open>The delimited-text parser: the file\<close>

text \<open>
  What a \<open>FileReader\<close> delivers for a file: the \<open>error\<close> event, or the \<open>load\<close> event with
  \<open>evt.target?.result\<close>, which is a string or nothing.
\<close>

datatype read_event = OnError | OnLoad "string option"

text \<open>\<open>values[index] || ''\<close>: a missing field and an empty field are both the empty string.\<close>

definition field_at :: "string list \<Rightarrow> nat \<Rightarrow> string" where
  "field_at values index = (if index < length values then values ! index else [])"

text \<open>\<open>if (value && !isNaN(value)) value = Number(value)\<close> (App.tsx, lines 123 to 127).\<close>

definition csv_coerce :: "string \<Rightarrow> jsval" where
  "csv_coerce value =
     (if value \<noteq> [] \<and> \<not> isNaN (StringToNumber value) then Num (StringToNumber value)
      else Str value)"

text \<open>The body of the loop over the data lines: \<open>headers.forEach\<close> fills a fresh row.\<close>

definition csv_row :: "string list \<Rightarrow> string list \<Rightarrow> row" where
  "csv_row headers values =
     foldl (\<lambda>row (header, index). obj_set row header (csv_coerce (field_at values index)))
       [] (zip headers [0..<length headers])"

definition nonblank_lines :: "string \<Rightarrow> string list" where
  "nonblank_lines csvString = filter (\<lambda>line. trim line \<noteq> []) (split_str newline csvString)"

text \<open>
  \<open>parseCSVFile\<close> (App.tsx, lines 97 to 143): the promise settles with the rows or is
  rejected with an \<open>Error\<close>, of which the model keeps the message. The loop over
  \<open>lines[1..]\<close> pushes one row per line.
\<close>

definition parseCSVFile :: "read_event \<Rightarrow> string + row list" where
  "parseCSVFile ev =
     (case ev of
        OnError \<Rightarrow> Inl ''Error reading file''
      | OnLoad None \<Rightarrow> Inl ''Failed to read file''
      | OnLoad (Some csvString) \<Rightarrow>
          if csvString = [] then Inl ''Failed to read file''
          else
            let lines = nonblank_lines csvString
            in if length lines = 0 then Inl ''CSV file is empty''
               else
                 let headers = parseCSVLine (hd lines)
                 in Inr (map (\<lambda>line. csv_row headers (parseCSVLine line)) (tl lines)))"

section \<open>The type normalizer and the spreadsheet decoder\<close>

text \<open>
  The clean-up of \<open>parseExcelFile\<close> (App.tsx, lines 163 to 173), for one value:
  \<open>typeof value === 'string' && !isNaN(value) && value.trim() !== ''\<close>.
\<close>

definition normalize_value :: "jsval \<Rightarrow> jsval" where
  "normalize_value value =
     (case value of
        Str s \<Rightarrow>
          if \<not> isNaN (StringToNumber s) \<and> trim s \<noteq> [] then Num (StringToNumber s) else value
      | _ \<Rightarrow> value)"

definition clean_row :: "row \<Rightarrow> row" where
  "clean_row r = foldl (\<lambda>newRow (key, value). obj_set newRow key (normalize_value value)) [] r"

text \<open>
  \<open>XLSX.read\<close> followed by \<open>XLSX.utils.sheet_to_json\<close> on the first sheet is the work of an
  external library: it is the parameter \<open>decode\<close>, which gives the rows of the first sheet
  or the message of the error it throws.
\<close>

type_synonym decoder = "string \<Rightarrow> string + row list"

definition parseExcelFile :: "decoder \<Rightarrow> read_event \<Rightarrow> string + row list" where
  "parseExcelFile decode ev =
     (case ev of
        OnError \<Rightarrow> Inl ''Error reading file''
      | OnLoad None \<Rightarrow> Inl ''Failed to read file''
      | OnLoad (Some binaryStr) \<Rightarrow>
          if binaryStr = [] then Inl ''Failed to read file''
          else case decode binaryStr of
                 Inl msg \<Rightarrow> Inl msg
               | Inr jsonData \<Rightarrow> Inr (map clean_row jsonData))"

section \<open>The component state and the upload handler\<close>

record app_state =
  data :: "row list"
  columns :: "string list"
  xAxis :: string
  yAxis :: string
  fileName :: string
  loading :: bool
  error :: string

record upload =
  name :: string
  reading :: read_event

text \<open>
  What \<open>handleFileUpload\<close> does, in order: the calls of the state setters and the start of
  a read of the file.
\<close>

datatype action =
    SetLoading bool
  | SetError string
  | SetFileName string
  | SetData "row list"
  | SetColumns "string list"
  | ReadAsText
  | ReadAsBinaryString

fun apply_action :: "app_state \<Rightarrow> action \<Rightarrow> app_state" where
  "apply_action st (SetLoading b) = st\<lparr>loading := b\<rparr>"
| "apply_action st (SetError msg) = st\<lparr>error := msg\<rparr>"
| "apply_action st (SetFileName n) = st\<lparr>fileName := n\<rparr>"
| "apply_action st (SetData rows) = st\<lparr>data := rows\<rparr>"
| "apply_action st (SetColumns cols) = st\<lparr>columns := cols\<rparr>"
| "apply_action st ReadAsText = st"
| "apply_action st ReadAsBinaryString = st"

definition run_actions :: "app_state \<Rightarrow> action list \<Rightarrow> app_state" where
  "run_actions st acts = foldl apply_action st acts"

text \<open>\<open>toLowerCase\<close> on the code units below 256: A to Z, and the capital letters of Latin-1.\<close>

definition to_lower_char :: "char \<Rightarrow> char" where
  "to_lower_char c =
     (let n = of_char c :: nat
      in if (65 \<le> n \<and> n \<le> 90) \<or> (192 \<le> n \<and> n \<le> 222 \<and> n \<noteq> 215) then char_of (n + 32)
         else c)"

definition toLowerCase :: "string \<Rightarrow> string" where
  "toLowerCase s = map to_lower_char s"

text \<open>\<open>file.name.split('.').pop().toLowerCase()\<close>; \<open>split\<close> never gives an empty array.\<close>

definition fileExtension :: "string \<Rightarrow> string" where
  "fileExtension file_name = toLowerCase (last (split_str (CHR ''.'') file_name))"

text \<open>
  The \<open>try\<close> block up to \<open>jsonData\<close> (App.tsx, lines 72 to 81): the reads it starts, and the
  rows or the message of the error thrown.
\<close>

definition load_file :: "decoder \<Rightarrow> upload \<Rightarrow> action list \<times> (string + row list)" where
  "load_file decode f =
     (let ext = fileExtension (name f)
      in if ext = ''csv'' then ([ReadAsText], parseCSVFile (reading f))
         else if ext = ''xlsx'' \<or> ext = ''xls'' then
           ([ReadAsBinaryString], parseExcelFile decode (reading f))
         else ([], Inl (''Unsupported file type: '' @ ext)))"

text \<open>
  \<open>handleFileUpload\<close> (App.tsx, lines 61 to 95); no file selected is \<open>None\<close>. The \<open>catch\<close>
  clause prefixes the message, the \<open>finally\<close> clause clears the loading flag.
\<close>

definition handleFileUpload :: "decoder \<Rightarrow> upload option \<Rightarrow> action list" where
  "handleFileUpload decode fo =
     (case fo of
        None \<Rightarrow> []
      | Some f \<Rightarrow>
          [SetLoading True, SetError [], SetFileName (name f), SetData [], SetColumns []]
          @ (case load_file decode f of
               (reads, Inr jsonData) \<Rightarrow>
                 reads @
                 (if length jsonData > 0 then
                    [SetData jsonData, SetColumns (Object_keys (hd jsonData))]
                  else [SetError ''No valid data found in file''])
             | (reads, Inl message) \<Rightarrow>
                 reads @ [SetError (''Error processing file: '' @ message)])
          @ [SetLoading False])"

section \<open>The schema inferencer\<close>

fun starts_with :: "string \<Rightarrow> string \<Rightarrow> bool" where
  "starts_with s [] = True"
| "starts_with [] (p # ps) = False"
| "starts_with (c # cs) (p # ps) = (c = p \<and> starts_with cs ps)"

fun includes_str :: "string \<Rightarrow> string \<Rightarrow> bool" where
  "includes_str [] p = (p = [])"
| "includes_str (c # cs) p = (starts_with (c # cs) p \<or> includes_str cs p)"

text \<open>\<open>col.toLowerCase().match(/amount|value|total|price|cost|sales/)\<close> as a condition.\<close>

definition preferred_name :: "string \<Rightarrow> bool" where
  "preferred_name col =
     list_ex (includes_str (toLowerCase col))
       [''amount'', ''value'', ''total'', ''price'', ''cost'', ''sales'']"

text \<open>\<open>a || b\<close> on strings that may be \<open>undefined\<close>: \<open>undefined\<close> and the empty string are falsy.\<close>

definition js_or :: "string option \<Rightarrow> string option \<Rightarrow> string option" where
  "js_or a b = (case a of None \<Rightarrow> b | Some s \<Rightarrow> if s = [] then b else a)"

definition first_elem :: "string list \<Rightarrow> string option" where
  "first_elem xs = (case xs of [] \<Rightarrow> None | x # _ \<Rightarrow> Some x)"

definition numericColumns :: "string list \<Rightarrow> row list \<Rightarrow> string list" where
  "numericColumns cols rows =
     filter (\<lambda>col. if length rows = 0 then False else typeof_number (obj_get (hd rows) col)) cols"

definition preferredYAxis :: "string list \<Rightarrow> row list \<Rightarrow> string" where
  "preferredYAxis cols rows =
     (let nc = numericColumns cols rows
      in case js_or (js_or (find preferred_name nc) (first_elem nc)) (Some []) of
           None \<Rightarrow> []
         | Some col \<Rightarrow> col)"

text \<open>The effect that runs when \<open>columns\<close> or \<open>data\<close> change (App.tsx, lines 40 to 59).\<close>

definition axis_effect :: "app_state \<Rightarrow> app_state" where
  "axis_effect st =
     (if length (columns st) > 0 then
        st\<lparr>xAxis := hd (columns st), yAxis := preferredYAxis (columns st) (data st)\<rparr>
      else st)"

section \<open>The visualization projection and the summary statistics\<close>

definition MAX_DISPLAY_DATA :: nat where
  "MAX_DISPLAY_DATA = 100"

text \<open>
  \<open>Array.prototype.sort\<close> with a comparator is a stable sort; a comparator result that is
  NaN counts as 0. With a comparator that is consistent, as a difference of numbers is,
  every stable sort gives the same array, and the model is the stable insertion sort.
\<close>

definition not_after :: "('a \<Rightarrow> 'a \<Rightarrow> jsnum) \<Rightarrow> 'a \<Rightarrow> 'a \<Rightarrow> bool" where
  "not_after cmp a b \<longleftrightarrow> \<not> js_less (Fin 0) (cmp a b)"

fun insert_sorted :: "('a \<Rightarrow> 'a \<Rightarrow> jsnum) \<Rightarrow> 'a \<Rightarrow> 'a list \<Rightarrow> 'a list" where
  "insert_sorted cmp a [] = [a]"
| "insert_sorted cmp a (b # bs) =
     (if not_after cmp a b then a # b # bs else b # insert_sorted cmp a bs)"

definition js_sort :: "('a \<Rightarrow> 'a \<Rightarrow> jsnum) \<Rightarrow> 'a list \<Rightarrow> 'a list" where
  "js_sort cmp xs = foldr (insert_sorted cmp) xs []"

text \<open>\<open>processedData\<close> (App.tsx, lines 26 to 37).\<close>

definition processedData :: "row list \<Rightarrow> string \<Rightarrow> string \<Rightarrow> row list" where
  "processedData rows x y =
     (if length rows = 0 \<or> x = [] \<or> y = [] then []
      else take MAX_DISPLAY_DATA
             (js_sort (\<lambda>a b. js_sub (ToNumber (obj_get b y)) (ToNumber (obj_get a y)))
                (filter (\<lambda>item. is_valid_number (obj_get item y)) rows)))"

record stats =
  min_val :: jsnum
  max_val :: jsnum
  avg :: jsnum
  count :: nat

text \<open>\<open>yAxisStats\<close> (App.tsx, lines 329 to 349); \<open>null\<close> is \<open>None\<close>.\<close>

definition yAxisStats :: "row list \<Rightarrow> string \<Rightarrow> stats option" where
  "yAxisStats rows y =
     (if y = [] \<or> length rows = 0 then None
      else
        let numericValues = filter is_valid_number (map (\<lambda>d. obj_get d y) rows)
        in if length numericValues = 0 then None
           else
             let sum = foldl (\<lambda>a b. js_add a (ToNumber b)) (Fin 0) numericValues
             in Some \<lparr>min_val = Math_min (map ToNumber numericValues),
                      max_val = Math_max (map ToNumber numericValues),
                      avg = js_div_length sum (length numericValues),
                      count = length numericValues\<rparr>)"

section \<open>Notions of the specification\<close>

text \<open>A call of \<open>setError\<close> that shows a message, and a call that shows rows or columns.\<close>

definition is_error_message :: "action \<Rightarrow> bool" where
  "is_error_message a = (case a of SetError m \<Rightarrow> m \<noteq> [] | _ \<Rightarrow> False)"

definition shows_rows :: "action \<Rightarrow> bool" where
  "shows_rows a =
     (case a of SetData rows \<Rightarrow> rows \<noteq> [] | SetColumns cols \<Rightarrow> cols \<noteq> [] | _ \<Rightarrow> False)"

text \<open>
  The default Y axis as the specification words it: among the columns whose value in the
  first row is a Number, the first whose name, in lower case, contains one of the six
  words; otherwise the first such column; otherwise the empty selection.
\<close>

definition contains_substring :: "string \<Rightarrow> string \<Rightarrow> bool" where
  "contains_substring s p \<longleftrightarrow> (\<exists>u v. s = u @ p @ v)"

definition name_matches :: "string \<Rightarrow> bool" where
  "name_matches col \<longleftrightarrow>
     (\<exists>p\<in>{''amount'', ''value'', ''total'', ''price'', ''cost'', ''sales''}.
        contains_substring (toLowerCase col) p)"

definition default_y_spec :: "string list \<Rightarrow> row \<Rightarrow> string" where
  "default_y_spec cols row0 =
     (case find (\<lambda>c. typeof_number (obj_get row0 c) \<and> name_matches c) cols of
        Some c \<Rightarrow> c
      | None \<Rightarrow>
          (case find (\<lambda>c. typeof_number (obj_get row0 c)) cols of
             Some c \<Rightarrow> c
           | None \<Rightarrow> []))"

text \<open>
  The projection as the specification words it: keep the rows whose Y value is a Number
  (NaN, which is no number, left out), sort them by that value in descending order with a
  stable sort, keep the first 100. The stable sort is \<open>sort_key\<close> of the library, on a key
  that turns the descending order of the numbers into an ascending one.
\<close>

definition desc_rank :: "jsnum \<Rightarrow> int \<times> int" where
  "desc_rank x = (case x of PosInf \<Rightarrow> (0, 0) | Fin k \<Rightarrow> (1, - k) | NegInf \<Rightarrow> (2, 0) | NaN \<Rightarrow> (3, 0))"

definition y_value :: "string \<Rightarrow> row \<Rightarrow> jsnum" where
  "y_value y r = ToNumber (obj_get r y)"

definition numeric_rows :: "row list \<Rightarrow> string \<Rightarrow> row list" where
  "numeric_rows rows y = filter (\<lambda>r. is_valid_number (obj_get r y)) rows"

definition projection_spec :: "row list \<Rightarrow> string \<Rightarrow> row list" where
  "projection_spec rows y =
     take 100 (sort_key (\<lambda>r. desc_rank (y_value y r)) (numeric_rows rows y))"

text \<open>
  The numeric literals. A numeric literal in decimal notation is an optional sign, then
  digits with an optional fraction (\<open>12\<close>, \<open>12.\<close>, \<open>12.5\<close>, \<open>.5\<close>), then an optional exponent.
  The strings that JavaScript reads as a number are these, the three spellings of
  infinity, and the unsigned integers written with a radix prefix.
\<close>

definition is_digit :: "char \<Rightarrow> bool" where
  "is_digit c \<longleftrightarrow> 48 \<le> (of_char c :: int) \<and> (of_char c :: int) \<le> 57"

definition is_hex_digit :: "char \<Rightarrow> bool" where
  "is_hex_digit c \<longleftrightarrow>
     is_digit c \<or> (97 \<le> (of_char c :: int) \<and> (of_char c :: int) \<le> 102)
       \<or> (65 \<le> (of_char c :: int) \<and> (of_char c :: int) \<le> 70)"

definition is_octal_digit :: "char \<Rightarrow> bool" where
  "is_octal_digit c \<longleftrightarrow> 48 \<le> (of_char c :: int) \<and> (of_char c :: int) \<le> 55"

definition is_binary_digit :: "char \<Rightarrow> bool" where
  "is_binary_digit c \<longleftrightarrow> c = CHR ''0'' \<or> c = CHR ''1''"

definition is_sign :: "string \<Rightarrow> bool" where
  "is_sign sg \<longleftrightarrow> sg = [] \<or> sg = ''+'' \<or> sg = ''-''"

definition exponent_part :: "string \<Rightarrow> bool" where
  "exponent_part ex \<longleftrightarrow>
     (\<exists>e sg ds. ex = e # sg @ ds \<and> is_exp_char e \<and> is_sign sg \<and> ds \<noteq> [] \<and> list_all is_digit ds)"

definition mantissa :: "string \<Rightarrow> bool" where
  "mantissa m \<longleftrightarrow>
     (\<exists>ip fp. list_all is_digit ip \<and> list_all is_digit fp \<and>
        ((m = ip \<and> ip \<noteq> []) \<or> (m = ip @ CHR ''.'' # fp \<and> (ip \<noteq> [] \<or> fp \<noteq> []))))"

definition unsigned_decimal :: "string \<Rightarrow> bool" where
  "unsigned_decimal u \<longleftrightarrow> (\<exists>m ex. u = m @ ex \<and> mantissa m \<and> (ex = [] \<or> exponent_part ex))"

definition decimal_notation :: "string \<Rightarrow> bool" where
  "decimal_notation t \<longleftrightarrow> (\<exists>sg u. t = sg @ u \<and> is_sign sg \<and> unsigned_decimal u)"

definition infinity_literal :: "string \<Rightarrow> bool" where
  "infinity_literal t \<longleftrightarrow> (\<exists>sg. t = sg @ ''Infinity'' \<and> is_sign sg)"

definition radix_literal :: "string \<Rightarrow> bool" where
  "radix_literal t \<longleftrightarrow>
     (\<exists>p ds. t = CHR ''0'' # p # ds \<and> ds \<noteq> [] \<and>
        (((p = CHR ''x'' \<or> p = CHR ''X'') \<and> list_all is_hex_digit ds) \<or>
         ((p = CHR ''o'' \<or> p = CHR ''O'') \<and> list_all is_octal_digit ds) \<or>
         ((p = CHR ''b'' \<or> p = CHR ''B'') \<and> list_all is_binary_digit ds)))"

definition js_numeric_literal :: "string \<Rightarrow> bool" where
  "js_numeric_literal t \<longleftrightarrow> decimal_notation t \<or> infinity_literal t \<or> radix_literal t"

text \<open>The characters that are neither digits nor letters nor a dot or a sign, such as a currency symbol, a comma or a percent sign.\<close>

definition is_letter :: "char \<Rightarrow> bool" where
  "is_letter c \<longleftrightarrow>
     (65 \<le> (of_char c :: int) \<and> (of_char c :: int) \<le> 90) \<or>
     (97 \<le> (of_char c :: int) \<and> (of_char c :: int) \<le> 122)"

definition is_symbol :: "char \<Rightarrow> bool" where
  "is_symbol c \<longleftrightarrow>
     \<not> is_digit c \<and> \<not> is_letter c \<and> \<not> is_space c \<and> c \<noteq> CHR ''.'' \<and> c \<noteq> CHR ''+'' \<and> c \<noteq> CHR ''-''"

text \<open>The numbers of the Y column over the whole dataset, in the order of the rows.\<close>

definition y_values :: "row list \<Rightarrow> string \<Rightarrow> jsnum list" where
  "y_values rows y = map (y_value y) (numeric_rows rows y)"

text \<open>The counts of units that are doubles: at most 53 significant bits, below the overflow threshold.\<close>

definition is_double :: "int \<Rightarrow> bool" where
  "is_double k \<longleftrightarrow> (\<exists>m e. \<bar>k\<bar> = m * 2 ^ e \<and> 0 \<le> m \<and> m < 2 ^ 53 \<and> \<bar>k\<bar> < overflow_threshold)"

section \<open>The projection on an empty axis selection\<close>

text \<open>
  Claim C10. Whatever the rows and the Y column are, the projection is the empty sequence
  when the X selection is empty, also when the Y column holds numbers.
\<close>

theorem processedData_empty_xAxis:
  "processedData rows [] y = []"
  by (simp add: processedData_def)

section \<open>Idempotence of the type normalizer\<close>

lemma normalize_value_Num:
  "normalize_value (Num n) = Num n"
  by (simp add: normalize_value_def)

text \<open>
  Claim C6. Normalizing twice is normalizing once: a string that was replaced by a Number
  stays that Number, and every value that passed through unchanged passes through again.
\<close>

theorem normalize_value_idempotent:
  "normalize_value (normalize_value x) = normalize_value x"
proof (cases x)
  case (Str s)
  show ?thesis
  proof (cases "\<not> isNaN (StringToNumber s) \<and> trim s \<noteq> []")
    case True
    then have "normalize_value x = Num (StringToNumber s)"
      using Str by (simp add: normalize_value_def)
    then show ?thesis by (simp add: normalize_value_Num)
  next
    case False
    then have "normalize_value x = x"
      using Str by (auto simp add: normalize_value_def)
    then show ?thesis by simp
  qed
qed (simp_all add: normalize_value_def)

section \<open>The file extension\<close>

lemma split_on_no_sep:
  "sep \<notin> set s \<Longrightarrow> split_on sep cur s = [cur @ s]"
  by (induction s arbitrary: cur) auto

lemma split_on_not_Nil:
  "split_on sep cur s \<noteq> []"
  by (induction s arbitrary: cur) auto

lemma last_split_on:
  "sep \<notin> set suf \<Longrightarrow> last (split_on sep cur (pre @ sep # suf)) = suf"
  by (induction pre arbitrary: cur) (auto simp add: split_on_no_sep split_on_not_Nil)

lemma fileExtension_after_last_dot:
  "CHR ''.'' \<notin> set suf \<Longrightarrow> fileExtension (pre @ CHR ''.'' # suf) = toLowerCase suf"
  by (simp add: fileExtension_def split_str_def last_split_on)

lemma fileExtension_no_dot:
  "CHR ''.'' \<notin> set n \<Longrightarrow> fileExtension n = toLowerCase n"
  by (simp add: fileExtension_def split_str_def split_on_no_sep)

lemma run_actions_append:
  "run_actions st (xs @ ys) = run_actions (run_actions st xs) ys"
  by (simp add: run_actions_def)

text \<open>
  Claim C7. The extension is the text after the last dot of the file name, in lower case.
  When it is none of \<open>csv\<close>, \<open>xlsx\<close>, \<open>xls\<close>, the upload ends with the error message
  \<open>Error processing file: Unsupported file type: \<close> followed by that extension, and the
  handler has started no read of the file; with one of the three extensions it does start
  a read.
\<close>

theorem unsupported_extension_fails_before_read:
  "(name f = pre @ CHR ''.'' # suf \<and> CHR ''.'' \<notin> set suf \<longrightarrow>
      fileExtension (name f) = toLowerCase suf) \<and>
   (fileExtension (name f) \<notin> {''csv'', ''xlsx'', ''xls''} \<longrightarrow>
      handleFileUpload decode (Some f) =
        [SetLoading True, SetError [], SetFileName (name f), SetData [], SetColumns [],
         SetError (''Error processing file: Unsupported file type: '' @ fileExtension (name f)),
         SetLoading False] \<and>
      error (run_actions st (handleFileUpload decode (Some f))) =
        ''Error processing file: Unsupported file type: '' @ fileExtension (name f) \<and>
      ReadAsText \<notin> set (handleFileUpload decode (Some f)) \<and>
      ReadAsBinaryString \<notin> set (handleFileUpload decode (Some f))) \<and>
   (fileExtension (name f) \<in> {''csv'', ''xlsx'', ''xls''} \<longrightarrow>
      ReadAsText \<in> set (handleFileUpload decode (Some f)) \<or>
      ReadAsBinaryString \<in> set (handleFileUpload decode (Some f)))"
proof (intro conjI impI)
  assume "name f = pre @ CHR ''.'' # suf \<and> CHR ''.'' \<notin> set suf"
  then show "fileExtension (name f) = toLowerCase suf"
    by (simp add: fileExtension_after_last_dot)
next
  assume u: "fileExtension (name f) \<notin> {''csv'', ''xlsx'', ''xls''}"
  then have l: "load_file decode f = ([], Inl (''Unsupported file type: '' @ fileExtension (name f)))"
    by (simp add: load_file_def Let_def)
  show h: "handleFileUpload decode (Some f) =
        [SetLoading True, SetError [], SetFileName (name f), SetData [], SetColumns [],
         SetError (''Error processing file: Unsupported file type: '' @ fileExtension (name f)),
         SetLoading False]"
    by (simp add: handleFileUpload_def l)
  show "error (run_actions st (handleFileUpload decode (Some f))) =
        ''Error processing file: Unsupported file type: '' @ fileExtension (name f)"
    by (simp add: h run_actions_def)
  show "ReadAsText \<notin> set (handleFileUpload decode (Some f))"
    by (simp add: h)
  show "ReadAsBinaryString \<notin> set (handleFileUpload decode (Some f))"
    by (simp add: h)
next
  assume "fileExtension (name f) \<in> {''csv'', ''xlsx'', ''xls''}"
  then show "ReadAsText \<in> set (handleFileUpload decode (Some f)) \<or>
      ReadAsBinaryString \<in> set (handleFileUpload decode (Some f))"
    by (auto simp add: handleFileUpload_def load_file_def Let_def split: sum.splits)
qed

lemma toLowerCase_TXT:
  "toLowerCase ''TXT'' = ''txt''"
  by code_simp

lemma fileExtension_report_TXT:
  "fileExtension ''report.TXT'' = ''txt''"
  by code_simp

theorem unsupported_extension_witness:
  "fileExtension ''report.TXT'' = ''txt'' \<and>
   error (run_actions \<lparr>data = [], columns = [], xAxis = [], yAxis = [], fileName = [],
            loading = False, error = []\<rparr>
      (handleFileUpload (\<lambda>b. Inr [])
         (Some \<lparr>name = ''report.TXT'', reading = OnLoad (Some ''a,b'')\<rparr>))) =
     ''Error processing file: Unsupported file type: txt'' \<and>
   ReadAsText \<notin> set (handleFileUpload (\<lambda>b. Inr [])
                      (Some \<lparr>name = ''report.TXT'', reading = OnLoad (Some ''a,b'')\<rparr>))"
  using unsupported_extension_fails_before_read
    [of "\<lparr>name = ''report.TXT'', reading = OnLoad (Some ''a,b'')\<rparr>" "''report''" "''TXT''"
        "\<lambda>b. Inr []"
        "\<lparr>data = [], columns = [], xAxis = [], yAxis = [], fileName = [], loading = False, error = []\<rparr>"]
  by (simp add: toLowerCase_TXT fileExtension_report_TXT run_actions_def)

section \<open>Failed ingestions\<close>

lemma load_file_reads:
  "fst (load_file decode f) = [] \<or> fst (load_file decode f) = [ReadAsText]
     \<or> fst (load_file decode f) = [ReadAsBinaryString]"
  by (simp add: load_file_def Let_def)

lemma handleFileUpload_failure:
  assumes "snd (load_file decode f) = Inl msg"
  shows "handleFileUpload decode (Some f) =
     [SetLoading True, SetError [], SetFileName (name f), SetData [], SetColumns []]
     @ fst (load_file decode f)
     @ [SetError (''Error processing file: '' @ msg), SetLoading False]"
  using assms by (cases "load_file decode f") (simp add: handleFileUpload_def)

lemma handleFileUpload_no_rows:
  assumes "snd (load_file decode f) = Inr []"
  shows "handleFileUpload decode (Some f) =
     [SetLoading True, SetError [], SetFileName (name f), SetData [], SetColumns []]
     @ fst (load_file decode f)
     @ [SetError ''No valid data found in file'', SetLoading False]"
  using assms by (cases "load_file decode f") (simp add: handleFileUpload_def)

lemma handleFileUpload_rows:
  assumes "snd (load_file decode f) = Inr rows" "rows \<noteq> []"
  shows "handleFileUpload decode (Some f) =
     [SetLoading True, SetError [], SetFileName (name f), SetData [], SetColumns []]
     @ fst (load_file decode f)
     @ [SetData rows, SetColumns (Object_keys (hd rows)), SetLoading False]"
  using assms by (cases "load_file decode f") (simp add: handleFileUpload_def)

lemma data_columns_unchanged:
  assumes "\<forall>a\<in>set xs. (\<forall>r. a \<noteq> SetData r) \<and> (\<forall>c. a \<noteq> SetColumns c)"
  shows "data (foldl apply_action s xs) = data s \<and> columns (foldl apply_action s xs) = columns s"
  using assms
proof (induction xs arbitrary: s)
  case Nil
  then show ?case by simp
next
  case (Cons a xs)
  then show ?case by (cases a) simp_all
qed

text \<open>The trace of an upload that ends with the message \<open>m\<close>.\<close>

lemma failed_trace_properties:
  assumes "acts = [SetLoading True, SetError [], SetFileName n, SetData [], SetColumns []]
     @ reads @ [SetError m, SetLoading False]"
    and "reads = [] \<or> reads = [ReadAsText] \<or> reads = [ReadAsBinaryString]"
    and "m \<noteq> []"
  shows "data (run_actions st acts) = []"
    and "columns (run_actions st acts) = []"
    and "loading (run_actions st acts) = False"
    and "error (run_actions st acts) = m"
    and "length (filter is_error_message acts) = 1"
    and "\<not> list_ex shows_rows acts"
    and "5 \<le> k \<Longrightarrow> data (run_actions st (take k acts)) = [] \<and> columns (run_actions st (take k acts)) = []"
proof -
  from assms(2) show "data (run_actions st acts) = []"
    by (auto simp add: assms(1) run_actions_def)
  from assms(2) show "columns (run_actions st acts) = []"
    by (auto simp add: assms(1) run_actions_def)
  from assms(2) show "loading (run_actions st acts) = False"
    by (auto simp add: assms(1) run_actions_def)
  from assms(2) show "error (run_actions st acts) = m"
    by (auto simp add: assms(1) run_actions_def)
  from assms(2,3) show "length (filter is_error_message acts) = 1"
    by (auto simp add: assms(1) is_error_message_def)
  from assms(2) show "\<not> list_ex shows_rows acts"
    by (auto simp add: assms(1) shows_rows_def)
  assume k: "5 \<le> k"
  define j where "j = k - 5"
  have kj: "k = 5 + j" using k by (simp add: j_def)
  let ?rest = "reads @ [SetError m, SetLoading False]"
  have t: "take k acts = [SetLoading True, SetError [], SetFileName n, SetData [], SetColumns []] @ take j ?rest"
    by (simp add: assms(1) kj eval_nat_numeral del: take_append)
  have "\<forall>a\<in>set ?rest. (\<forall>r. a \<noteq> SetData r) \<and> (\<forall>c. a \<noteq> SetColumns c)"
    using assms(2) by auto
  then have "\<forall>a\<in>set (take j ?rest). (\<forall>r. a \<noteq> SetData r) \<and> (\<forall>c. a \<noteq> SetColumns c)"
    by (meson in_set_takeD)
  from data_columns_unchanged[OF this]
  show "data (run_actions st (take k acts)) = [] \<and> columns (run_actions st (take k acts)) = []"
    by (simp add: t run_actions_def)
qed

text \<open>
  Claim C9. When the \<open>try\<close> block ends with an error of any kind (unsupported extension,
  empty CSV, decoder error, read failure) or with zero rows, the state after the handler has
  no rows and no columns, the loading flag is off and the error is the message: the literal
  \<open>No valid data found in file\<close> for zero rows, the message of the error behind the prefix
  \<open>Error processing file: \<close> otherwise. The handler shows exactly one message, never sets
  rows or columns other than the empty ones, and from the fifth setter call on every state
  it goes through has no rows and no columns.
\<close>

theorem failed_ingestion_leaves_state_cleared:
  "snd (load_file decode f) = Inl msg \<or> snd (load_file decode f) = Inr [] \<longrightarrow>
     data (run_actions st (handleFileUpload decode (Some f))) = [] \<and>
     columns (run_actions st (handleFileUpload decode (Some f))) = [] \<and>
     loading (run_actions st (handleFileUpload decode (Some f))) = False \<and>
     error (run_actions st (handleFileUpload decode (Some f))) =
       (case snd (load_file decode f) of
          Inl m \<Rightarrow> ''Error processing file: '' @ m
        | Inr rows \<Rightarrow> ''No valid data found in file'') \<and>
     length (filter is_error_message (handleFileUpload decode (Some f))) = 1 \<and>
     \<not> list_ex shows_rows (handleFileUpload decode (Some f)) \<and>
     (\<forall>k\<ge>5. data (run_actions st (take k (handleFileUpload decode (Some f)))) = [] \<and>
             columns (run_actions st (take k (handleFileUpload decode (Some f)))) = [])"
proof
  assume a: "snd (load_file decode f) = Inl msg \<or> snd (load_file decode f) = Inr []"
  define m where "m = (case snd (load_file decode f) of
          Inl m \<Rightarrow> ''Error processing file: '' @ m
        | Inr rows \<Rightarrow> ''No valid data found in file'')"
  have m: "m \<noteq> []"
    using a by (auto simp add: m_def)
  have h: "handleFileUpload decode (Some f) =
     [SetLoading True, SetError [], SetFileName (name f), SetData [], SetColumns []]
     @ fst (load_file decode f) @ [SetError m, SetLoading False]"
    using a handleFileUpload_failure[of decode f msg] handleFileUpload_no_rows[of decode f]
    by (auto simp add: m_def)
  note p = failed_trace_properties[OF h load_file_reads m]
  show "data (run_actions st (handleFileUpload decode (Some f))) = [] \<and>
     columns (run_actions st (handleFileUpload decode (Some f))) = [] \<and>
     loading (run_actions st (handleFileUpload decode (Some f))) = False \<and>
     error (run_actions st (handleFileUpload decode (Some f))) =
       (case snd (load_file decode f) of
          Inl m \<Rightarrow> ''Error processing file: '' @ m
        | Inr rows \<Rightarrow> ''No valid data found in file'') \<and>
     length (filter is_error_message (handleFileUpload decode (Some f))) = 1 \<and>
     \<not> list_ex shows_rows (handleFileUpload decode (Some f)) \<and>
     (\<forall>k\<ge>5. data (run_actions st (take k (handleFileUpload decode (Some f)))) = [] \<and>
             columns (run_actions st (take k (handleFileUpload decode (Some f)))) = [])"
    using p(1)[of st] p(2)[of st] p(3)[of st] p(4)[of st] p(5) p(6) p(7)[of _ st]
    unfolding m_def[symmetric] by blast
qed

lemma fileExtension_old_xls:
  "fileExtension ''old.xls'' = ''xls''"
  by code_simp

lemma load_file_corrupt_workbook:
  "load_file (\<lambda>b. Inl ''Unsupported file'') \<lparr>name = ''old.xls'', reading = OnLoad (Some ''PK'')\<rparr>
     = ([ReadAsBinaryString], Inl ''Unsupported file'')"
  by (simp add: load_file_def fileExtension_old_xls parseExcelFile_def)

theorem failed_ingestion_witness:
  "snd (load_file (\<lambda>b. Inl ''Unsupported file'')
          \<lparr>name = ''old.xls'', reading = OnLoad (Some ''PK'')\<rparr>) = Inl ''Unsupported file'' \<and>
   data (run_actions
          \<lparr>data = [[(''a'', Null)]], columns = [''a''], xAxis = ''a'', yAxis = [],
             fileName = ''prev.csv'', loading = False, error = []\<rparr>
          (handleFileUpload (\<lambda>b. Inl ''Unsupported file'')
             (Some \<lparr>name = ''old.xls'', reading = OnLoad (Some ''PK'')\<rparr>))) = [] \<and>
   error (run_actions
          \<lparr>data = [[(''a'', Null)]], columns = [''a''], xAxis = ''a'', yAxis = [],
             fileName = ''prev.csv'', loading = False, error = []\<rparr>
          (handleFileUpload (\<lambda>b. Inl ''Unsupported file'')
             (Some \<lparr>name = ''old.xls'', reading = OnLoad (Some ''PK'')\<rparr>))) =
     ''Error processing file: Unsupported file''"
  using failed_ingestion_leaves_state_cleared
    [of "\<lambda>b. Inl ''Unsupported file''" "\<lparr>name = ''old.xls'', reading = OnLoad (Some ''PK'')\<rparr>"
        "''Unsupported file''"
        "\<lparr>data = [[(''a'', Null)]], columns = [''a''], xAxis = ''a'', yAxis = [],
             fileName = ''prev.csv'', loading = False, error = []\<rparr>"]
  by (simp add: load_file_corrupt_workbook)

section \<open>An empty CSV file\<close>

lemma nonblank_lines_empty:
  "nonblank_lines [] = []"
  by (simp add: nonblank_lines_def split_str_def trim_def)

lemma fileExtension_empty_csv:
  "fileExtension ''empty.csv'' = ''csv''"
  by code_simp

text \<open>
  Claim C8, at the empty text. The text has no non-blank line, and the parser does not fail
  with \<open>CSV file is empty\<close> but with \<open>Failed to read file\<close>, which is what the user sees
  behind the prefix. On every text that is not empty the parser fails with
  \<open>CSV file is empty\<close> exactly when no line is non-blank.
\<close>

theorem empty_csv_text_reports_read_failure:
  "nonblank_lines [] = [] \<and>
   parseCSVFile (OnLoad (Some [])) = Inl ''Failed to read file'' \<and>
   error (run_actions st
      (handleFileUpload decode (Some \<lparr>name = ''empty.csv'', reading = OnLoad (Some [])\<rparr>))) =
     ''Error processing file: Failed to read file'' \<and>
   (parseCSVFile (OnLoad (Some (c # cs))) = Inl ''CSV file is empty''
      \<longleftrightarrow> nonblank_lines (c # cs) = [])"
proof (intro conjI)
  show "nonblank_lines [] = []"
    by (rule nonblank_lines_empty)
  show p: "parseCSVFile (OnLoad (Some [])) = Inl ''Failed to read file''"
    by (simp add: parseCSVFile_def)
  have "load_file decode \<lparr>name = ''empty.csv'', reading = OnLoad (Some [])\<rparr>
          = ([ReadAsText], Inl ''Failed to read file'')"
    by (simp add: load_file_def fileExtension_empty_csv p)
  then show "error (run_actions st
      (handleFileUpload decode (Some \<lparr>name = ''empty.csv'', reading = OnLoad (Some [])\<rparr>))) =
     ''Error processing file: Failed to read file''"
    by (simp add: handleFileUpload_def run_actions_def)
  show "parseCSVFile (OnLoad (Some (c # cs))) = Inl ''CSV file is empty''
      \<longleftrightarrow> nonblank_lines (c # cs) = []"
    by (simp add: parseCSVFile_def Let_def)
qed

section \<open>The scanner of a CSV line\<close>

lemma substring_le:
  "a \<le> b \<Longrightarrow> substring s a b = take (b - a) (drop a s)"
  by (simp add: substring_def min_def max_def)

lemma take_Suc_drop:
  "i < length s \<Longrightarrow> start \<le> i \<Longrightarrow>
   take (Suc i - start) (drop start s) = take (i - start) (drop start s) @ [s ! i]"
  by (simp add: take_Suc_conv_app_nth Suc_diff_le)

text \<open>The loop, started anywhere, continues as the scanner does on the rest of the line.\<close>

lemma parseCSVLine_loop_scan:
  "start \<le> i \<Longrightarrow> i \<le> length line \<Longrightarrow>
   parseCSVLine_loop line i start inq res =
     res @ map clean_field (scan_fields inq (substring line start i) (drop i line))"
proof (induction line i start inq res rule: parseCSVLine_loop.induct)
  case (1 line i start inQuotes result)
  show ?case
  proof (cases "i < length line")
    case False
    with 1 have "i = length line" by simp
    then show ?thesis
      using 1(4) by (subst parseCSVLine_loop.simps) (simp add: substring_le)
  next
    case True
    then have d: "drop i line = line ! i # drop (Suc i) line"
      by (simp add: Cons_nth_drop_Suc)
    have s: "substring line start (Suc i) = substring line start i @ [line ! i]"
      using True 1(4) by (simp add: substring_le take_Suc_drop)
    have e: "substring line (Suc i) (Suc i) = []"
      by (simp add: substring_def)
    show ?thesis
      using True 1 by (subst parseCSVLine_loop.simps) (simp add: d s e)
  qed
qed

lemma parseCSVLine_scan:
  "parseCSVLine line = map clean_field (scan_fields False [] line)"
  by (simp add: parseCSVLine_def parseCSVLine_loop_scan substring_def)

text \<open>A part of the line with an even number of quotes leaves the flag as it was.\<close>

lemma scan_fields_balanced:
  "even (count_list a dquote) \<longleftrightarrow> \<not> inq \<Longrightarrow>
   scan_fields inq cur (a @ comma # rest) = scan_fields inq cur a @ scan_fields False [] rest"
proof (induction a arbitrary: inq cur)
  case Nil
  then show ?case by simp
next
  case (Cons c a)
  then show ?case by (cases "c = dquote") auto
qed

lemma scan_fields_inside_quotes:
  "dquote \<notin> set fld \<Longrightarrow>
   scan_fields True cur (fld @ dquote # rest) = scan_fields False (cur @ fld @ [dquote]) rest"
  by (induction fld arbitrary: cur) auto

lemma scan_fields_quoted:
  assumes "dquote \<notin> set fld"
  shows "scan_fields False [] (dquote # fld @ dquote # comma # rest) =
           (dquote # fld @ [dquote]) # scan_fields False [] rest"
proof -
  have "scan_fields False [] (dquote # fld @ dquote # comma # rest) =
          scan_fields True [dquote] (fld @ dquote # comma # rest)"
    by simp
  also have "\<dots> = scan_fields False ([dquote] @ fld @ [dquote]) (comma # rest)"
    using assms by (rule scan_fields_inside_quotes)
  also have "\<dots> = (dquote # fld @ [dquote]) # scan_fields False [] rest"
    by simp
  finally show ?thesis .
qed

lemma trim_quoted:
  "trim (dquote # fld @ [dquote]) = dquote # fld @ [dquote]"
  by (simp add: trim_def is_space_def)

lemma clean_field_quoted:
  "clean_field (dquote # fld @ [dquote]) = fld"
  by (simp add: clean_field_def trim_quoted strip_quotes_def)

lemma parseCSVLine_quoted_field:
  assumes "even (count_list pre dquote)" "dquote \<notin> set fld"
  shows "parseCSVLine (pre @ comma # dquote # fld @ dquote # comma # post) =
           parseCSVLine pre @ fld # parseCSVLine post"
proof -
  have "scan_fields False [] (pre @ comma # dquote # fld @ dquote # comma # post) =
          scan_fields False [] pre @ scan_fields False [] (dquote # fld @ dquote # comma # post)"
    by (rule scan_fields_balanced) (simp add: assms(1))
  also have "\<dots> = scan_fields False [] pre @ (dquote # fld @ [dquote]) # scan_fields False [] post"
    by (simp only: scan_fields_quoted[OF assms(2)])
  finally show ?thesis
    by (simp add: parseCSVLine_scan clean_field_quoted)
qed

lemma nonblank_lines_not_empty_text:
  "nonblank_lines text \<noteq> [] \<Longrightarrow> text \<noteq> []"
  by (auto simp add: nonblank_lines_def split_str_def trim_def)

lemma parseCSVFile_rows:
  assumes "nonblank_lines text = header # body"
  shows "parseCSVFile (OnLoad (Some text)) =
           Inr (map (\<lambda>line. csv_row (parseCSVLine header) (parseCSVLine line)) body)"
proof -
  have "text \<noteq> []"
    by (rule nonblank_lines_not_empty_text) (simp add: assms)
  then show ?thesis
    by (simp add: parseCSVFile_def assms)
qed

lemma parseCSVLine_doubled_quotes:
  "parseCSVLine [dquote, CHR ''a'', dquote, dquote, CHR ''b'', dquote] =
     [[CHR ''a'', dquote, dquote, CHR ''b'']]"
  by code_simp

section \<open>The default axes\<close>

lemma starts_with_iff:
  "starts_with s p \<longleftrightarrow> (\<exists>v. s = p @ v)"
  by (induction s p rule: starts_with.induct) auto

lemma includes_str_iff:
  "includes_str s p \<longleftrightarrow> contains_substring s p"
proof (induction s)
  case Nil
  then show ?case by (simp add: contains_substring_def)
next
  case (Cons c cs)
  have "contains_substring (c # cs) p \<longleftrightarrow> (\<exists>v. c # cs = p @ v) \<or> contains_substring cs p"
  proof
    assume "contains_substring (c # cs) p"
    then obtain u v where uv: "c # cs = u @ p @ v"
      by (auto simp add: contains_substring_def)
    show "(\<exists>v. c # cs = p @ v) \<or> contains_substring cs p"
    proof (cases u)
      case Nil
      then show ?thesis using uv by auto
    next
      case (Cons a u')
      then have "cs = u' @ p @ v" using uv by simp
      then show ?thesis by (auto simp add: contains_substring_def)
    qed
  next
    assume "(\<exists>v. c # cs = p @ v) \<or> contains_substring cs p"
    then show "contains_substring (c # cs) p"
    proof
      assume "\<exists>v. c # cs = p @ v"
      then obtain v where "c # cs = [] @ p @ v" by auto
      then show ?thesis unfolding contains_substring_def by blast
    next
      assume "contains_substring cs p"
      then obtain u v where "cs = u @ p @ v" by (auto simp add: contains_substring_def)
      then have "c # cs = (c # u) @ p @ v" by simp
      then show ?thesis unfolding contains_substring_def by blast
    qed
  qed
  then show ?case using Cons by (simp add: starts_with_iff)
qed

lemma preferred_name_iff:
  "preferred_name col \<longleftrightarrow> name_matches col"
  by (simp add: preferred_name_def name_matches_def includes_str_iff)

lemma preferred_name_not_empty:
  "preferred_name col \<Longrightarrow> col \<noteq> []"
  by (auto simp add: preferred_name_def toLowerCase_def)

lemma find_filter:
  "find P (filter Q xs) = find (\<lambda>x. Q x \<and> P x) xs"
  by (induction xs) auto

lemma first_elem_filter:
  "first_elem (filter Q xs) = find Q xs"
  by (induction xs) (auto simp add: first_elem_def)

lemma preferredYAxis_spec:
  assumes "rows \<noteq> []"
  shows "preferredYAxis cols rows = default_y_spec cols (hd rows)"
proof -
  let ?Q = "\<lambda>c. typeof_number (obj_get (hd rows) c)"
  have nc: "numericColumns cols rows = filter ?Q cols"
    using assms by (simp add: numericColumns_def)
  have pn: "preferred_name = name_matches"
    by (rule ext) (rule preferred_name_iff)
  have fp: "find preferred_name (numericColumns cols rows) = find (\<lambda>c. ?Q c \<and> name_matches c) cols"
    by (simp add: nc find_filter pn)
  have fe: "first_elem (numericColumns cols rows) = find ?Q cols"
    by (simp add: nc first_elem_filter)
  show ?thesis
  proof (cases "find (\<lambda>c. ?Q c \<and> name_matches c) cols")
    case None
    then show ?thesis
      by (cases "find ?Q cols")
        (simp_all add: preferredYAxis_def default_y_spec_def Let_def fp fe js_or_def)
  next
    case (Some c)
    then have "name_matches c"
      by (auto simp add: find_Some_iff)
    then have "c \<noteq> []"
      using preferred_name_not_empty preferred_name_iff by blast
    then show ?thesis
      using Some
      by (simp add: preferredYAxis_def default_y_spec_def Let_def fp fe js_or_def)
  qed
qed

lemma Region_not_preferred:
  "\<not> name_matches ''Region''"
proof -
  have "\<not> preferred_name ''Region''" by code_simp
  then show ?thesis by (simp add: preferred_name_iff)
qed

lemma Sales_preferred:
  "name_matches ''Sales''"
proof -
  have "preferred_name ''Sales''" by code_simp
  then show ?thesis by (simp add: preferred_name_iff)
qed

lemma default_y_spec_Sales:
  assumes "''Sales'' \<in> set cols" "typeof_number (obj_get row0 ''Sales'')"
  shows "name_matches (default_y_spec cols row0)"
    and "default_y_spec cols row0 \<noteq> ''Region''"
    and "(\<forall>c\<in>set cols. c \<noteq> ''Sales'' \<longrightarrow> \<not> name_matches c) \<Longrightarrow> default_y_spec cols row0 = ''Sales''"
proof -
  let ?P = "\<lambda>c. typeof_number (obj_get row0 c) \<and> name_matches c"
  have "\<exists>c\<in>set cols. ?P c"
    using assms Sales_preferred by blast
  then obtain c where c: "find ?P cols = Some c"
    by (cases "find ?P cols") (auto simp add: find_None_iff)
  then have d: "default_y_spec cols row0 = c"
    by (simp add: default_y_spec_def)
  have pc: "?P c \<and> c \<in> set cols"
    using c by (auto simp add: find_Some_iff)
  show "name_matches (default_y_spec cols row0)"
    using pc d by simp
  then show "default_y_spec cols row0 \<noteq> ''Region''"
    using Region_not_preferred by auto
  assume "\<forall>c\<in>set cols. c \<noteq> ''Sales'' \<longrightarrow> \<not> name_matches c"
  then show "default_y_spec cols row0 = ''Sales''"
    using pc d by auto
qed

lemma axes_unchanged:
  "xAxis (foldl apply_action s acts) = xAxis s \<and> yAxis (foldl apply_action s acts) = yAxis s"
proof (induction acts arbitrary: s)
  case Nil
  show ?case by simp
next
  case (Cons a acts)
  show ?case
    by (cases a) (simp_all add: Cons.IH)
qed

text \<open>
  Claim C4. After an upload that yields a non-empty sequence of rows, and after the effect
  on the axes has run, the rows are the data and the column list is the key order of the
  first row. When the first row has at least one key, the X axis is the first column and
  the Y axis is the column the specification describes; when a column \<open>Sales\<close> holds a Number
  in the first row, the Y axis is then a column with a preferred name, hence never
  \<open>Region\<close>, wherever the columns stand, and it is \<open>Sales\<close> when no other column has a
  preferred name. When the first row has no key, the column list is empty, the effect does
  nothing, and both axes keep the values they had before the upload.
\<close>

theorem schema_inference_defaults:
  "(snd (load_file decode f) = Inr rows \<and> rows \<noteq> [] \<and> Object_keys (hd rows) \<noteq> [] \<longrightarrow>
     data (axis_effect (run_actions st (handleFileUpload decode (Some f)))) = rows \<and>
     columns (axis_effect (run_actions st (handleFileUpload decode (Some f)))) =
       Object_keys (hd rows) \<and>
     xAxis (axis_effect (run_actions st (handleFileUpload decode (Some f)))) =
       hd (Object_keys (hd rows)) \<and>
     yAxis (axis_effect (run_actions st (handleFileUpload decode (Some f)))) =
       default_y_spec (Object_keys (hd rows)) (hd rows) \<and>
     (''Sales'' \<in> set (Object_keys (hd rows)) \<and> typeof_number (obj_get (hd rows) ''Sales'') \<longrightarrow>
        yAxis (axis_effect (run_actions st (handleFileUpload decode (Some f)))) \<noteq> ''Region'' \<and>
        name_matches (yAxis (axis_effect (run_actions st (handleFileUpload decode (Some f))))) \<and>
        ((\<forall>c\<in>set (Object_keys (hd rows)). c \<noteq> ''Sales'' \<longrightarrow> \<not> name_matches c) \<longrightarrow>
           yAxis (axis_effect (run_actions st (handleFileUpload decode (Some f)))) = ''Sales''))) \<and>
   (snd (load_file decode f) = Inr rows \<and> rows \<noteq> [] \<and> Object_keys (hd rows) = [] \<longrightarrow>
     data (axis_effect (run_actions st (handleFileUpload decode (Some f)))) = rows \<and>
     columns (axis_effect (run_actions st (handleFileUpload decode (Some f)))) = [] \<and>
     xAxis (axis_effect (run_actions st (handleFileUpload decode (Some f)))) = xAxis st \<and>
     yAxis (axis_effect (run_actions st (handleFileUpload decode (Some f)))) = yAxis st)"
proof (rule conjI; rule impI)
  assume a: "snd (load_file decode f) = Inr rows \<and> rows \<noteq> [] \<and> Object_keys (hd rows) \<noteq> []"
  let ?st = "run_actions st (handleFileUpload decode (Some f))"
  have h: "handleFileUpload decode (Some f) =
     [SetLoading True, SetError [], SetFileName (name f), SetData [], SetColumns []]
     @ fst (load_file decode f)
     @ [SetData rows, SetColumns (Object_keys (hd rows)), SetLoading False]"
    using a by (simp add: handleFileUpload_rows)
  have d: "data ?st = rows" and c: "columns ?st = Object_keys (hd rows)"
    using load_file_reads[of decode f] by (auto simp add: h run_actions_def)
  have e: "axis_effect ?st =
      ?st\<lparr>xAxis := hd (Object_keys (hd rows)),
           yAxis := default_y_spec (Object_keys (hd rows)) (hd rows)\<rparr>"
    using a by (simp add: axis_effect_def c d preferredYAxis_spec)
  show "data (axis_effect ?st) = rows \<and>
     columns (axis_effect ?st) = Object_keys (hd rows) \<and>
     xAxis (axis_effect ?st) = hd (Object_keys (hd rows)) \<and>
     yAxis (axis_effect ?st) = default_y_spec (Object_keys (hd rows)) (hd rows) \<and>
     (''Sales'' \<in> set (Object_keys (hd rows)) \<and> typeof_number (obj_get (hd rows) ''Sales'') \<longrightarrow>
        yAxis (axis_effect ?st) \<noteq> ''Region'' \<and>
        name_matches (yAxis (axis_effect ?st)) \<and>
        ((\<forall>c\<in>set (Object_keys (hd rows)). c \<noteq> ''Sales'' \<longrightarrow> \<not> name_matches c) \<longrightarrow>
           yAxis (axis_effect ?st) = ''Sales''))"
    using default_y_spec_Sales[of "Object_keys (hd rows)" "hd rows"]
    by (simp add: e c d)
next
  assume a: "snd (load_file decode f) = Inr rows \<and> rows \<noteq> [] \<and> Object_keys (hd rows) = []"
  let ?st = "run_actions st (handleFileUpload decode (Some f))"
  have h: "handleFileUpload decode (Some f) =
     [SetLoading True, SetError [], SetFileName (name f), SetData [], SetColumns []]
     @ fst (load_file decode f)
     @ [SetData rows, SetColumns (Object_keys (hd rows)), SetLoading False]"
    using a by (simp add: handleFileUpload_rows)
  have d: "data ?st = rows" and c: "columns ?st = []"
    using load_file_reads[of decode f] a by (auto simp add: h run_actions_def)
  have e: "axis_effect ?st = ?st"
    by (simp add: axis_effect_def c)
  have x: "xAxis ?st = xAxis st" and y: "yAxis ?st = yAxis st"
    by (simp_all add: run_actions_def axes_unchanged)
  show "data (axis_effect ?st) = rows \<and> columns (axis_effect ?st) = [] \<and>
        xAxis (axis_effect ?st) = xAxis st \<and> yAxis (axis_effect ?st) = yAxis st"
    by (simp add: e d c x y)
qed

lemma fileExtension_q1_xlsx:
  "fileExtension ''q1.XLSX'' = ''xlsx''"
  by code_simp

lemma clean_row_example:
  "clean_row [(''Region'', Str ''North''), (''Sales'', Num (Fin 0))] =
     [(''Region'', Str ''North''), (''Sales'', Num (Fin 0))]"
  by code_simp

lemma load_file_example_workbook:
  "load_file (\<lambda>b. Inr [[(''Region'', Str ''North''), (''Sales'', Num (Fin 0))]])
     \<lparr>name = ''q1.XLSX'', reading = OnLoad (Some ''PK'')\<rparr> =
   ([ReadAsBinaryString], Inr [[(''Region'', Str ''North''), (''Sales'', Num (Fin 0))]])"
  by (simp add: load_file_def fileExtension_q1_xlsx parseExcelFile_def clean_row_example)

lemma fileExtension_blank_xlsx:
  "fileExtension ''blank.xlsx'' = ''xlsx''"
  by code_simp

lemma clean_row_empty:
  "clean_row [] = []"
  by code_simp

lemma load_file_blank_workbook:
  "load_file (\<lambda>b. Inr [[]]) \<lparr>name = ''blank.xlsx'', reading = OnLoad (Some ''PK'')\<rparr> =
   ([ReadAsBinaryString], Inr [[]])"
  by (simp add: load_file_def fileExtension_blank_xlsx parseExcelFile_def clean_row_empty)

text \<open>
  A workbook with the columns \<open>Region\<close> and \<open>Sales\<close>, uploaded into the initial state; and a
  workbook whose first row has no cell, uploaded after a file with the columns \<open>Name\<close> and
  \<open>Amount\<close>.
\<close>

theorem schema_inference_witness:
  "snd (load_file (\<lambda>b. Inr [[(''Region'', Str ''North''), (''Sales'', Num (Fin 0))]])
          \<lparr>name = ''q1.XLSX'', reading = OnLoad (Some ''PK'')\<rparr>) =
     Inr [[(''Region'', Str ''North''), (''Sales'', Num (Fin 0))]] \<and>
   columns (axis_effect (run_actions
       \<lparr>data = [], columns = [], xAxis = [], yAxis = [], fileName = [], loading = False, error = []\<rparr>
       (handleFileUpload (\<lambda>b. Inr [[(''Region'', Str ''North''), (''Sales'', Num (Fin 0))]])
          (Some \<lparr>name = ''q1.XLSX'', reading = OnLoad (Some ''PK'')\<rparr>)))) = [''Region'', ''Sales''] \<and>
   xAxis (axis_effect (run_actions
       \<lparr>data = [], columns = [], xAxis = [], yAxis = [], fileName = [], loading = False, error = []\<rparr>
       (handleFileUpload (\<lambda>b. Inr [[(''Region'', Str ''North''), (''Sales'', Num (Fin 0))]])
          (Some \<lparr>name = ''q1.XLSX'', reading = OnLoad (Some ''PK'')\<rparr>)))) = ''Region'' \<and>
   yAxis (axis_effect (run_actions
       \<lparr>data = [], columns = [], xAxis = [], yAxis = [], fileName = [], loading = False, error = []\<rparr>
       (handleFileUpload (\<lambda>b. Inr [[(''Region'', Str ''North''), (''Sales'', Num (Fin 0))]])
          (Some \<lparr>name = ''q1.XLSX'', reading = OnLoad (Some ''PK'')\<rparr>)))) = ''Sales'' \<and>
   snd (load_file (\<lambda>b. Inr [[]]) \<lparr>name = ''blank.xlsx'', reading = OnLoad (Some ''PK'')\<rparr>) =
     Inr [[]] \<and>
   Object_keys (hd [[]]) = [] \<and>
   columns (axis_effect (run_actions
       \<lparr>data = [[(''Name'', Str ''A''), (''Amount'', Num (Fin 0))]], columns = [''Name'', ''Amount''],
        xAxis = ''Name'', yAxis = ''Amount'', fileName = ''old.csv'', loading = False, error = []\<rparr>
       (handleFileUpload (\<lambda>b. Inr [[]])
          (Some \<lparr>name = ''blank.xlsx'', reading = OnLoad (Some ''PK'')\<rparr>)))) = [] \<and>
   xAxis (axis_effect (run_actions
       \<lparr>data = [[(''Name'', Str ''A''), (''Amount'', Num (Fin 0))]], columns = [''Name'', ''Amount''],
        xAxis = ''Name'', yAxis = ''Amount'', fileName = ''old.csv'', loading = False, error = []\<rparr>
       (handleFileUpload (\<lambda>b. Inr [[]])
          (Some \<lparr>name = ''blank.xlsx'', reading = OnLoad (Some ''PK'')\<rparr>)))) = ''Name'' \<and>
   yAxis (axis_effect (run_actions
       \<lparr>data = [[(''Name'', Str ''A''), (''Amount'', Num (Fin 0))]], columns = [''Name'', ''Amount''],
        xAxis = ''Name'', yAxis = ''Amount'', fileName = ''old.csv'', loading = False, error = []\<rparr>
       (handleFileUpload (\<lambda>b. Inr [[]])
          (Some \<lparr>name = ''blank.xlsx'', reading = OnLoad (Some ''PK'')\<rparr>)))) = ''Amount''"
proof -
  note t1 = schema_inference_defaults
    [of "\<lambda>b. Inr [[(''Region'', Str ''North''), (''Sales'', Num (Fin 0))]]"
        "\<lparr>name = ''q1.XLSX'', reading = OnLoad (Some ''PK'')\<rparr>"
        "[[(''Region'', Str ''North''), (''Sales'', Num (Fin 0))]]"
        "\<lparr>data = [], columns = [], xAxis = [], yAxis = [], fileName = [], loading = False, error = []\<rparr>",
     THEN conjunct1]
  note t2 = schema_inference_defaults
    [of "\<lambda>b. Inr [[]]"
        "\<lparr>name = ''blank.xlsx'', reading = OnLoad (Some ''PK'')\<rparr>"
        "[[]]"
        "\<lparr>data = [[(''Name'', Str ''A''), (''Amount'', Num (Fin 0))]], columns = [''Name'', ''Amount''],
          xAxis = ''Name'', yAxis = ''Amount'', fileName = ''old.csv'', loading = False, error = []\<rparr>",
     THEN conjunct2]
  have a: "snd (load_file (\<lambda>b. Inr [[(''Region'', Str ''North''), (''Sales'', Num (Fin 0))]])
              \<lparr>name = ''q1.XLSX'', reading = OnLoad (Some ''PK'')\<rparr>) =
             Inr [[(''Region'', Str ''North''), (''Sales'', Num (Fin 0))]]"
    by (simp add: load_file_example_workbook)
  have b: "snd (load_file (\<lambda>b. Inr [[]]) \<lparr>name = ''blank.xlsx'', reading = OnLoad (Some ''PK'')\<rparr>) =
             Inr [[]]"
    by (simp add: load_file_blank_workbook)
  have k: "Object_keys (hd [[]]) = []"
    by (simp add: Object_keys_def)
  show ?thesis
    using t1 t2 a b k Region_not_preferred
    by (auto simp add: Object_keys_def obj_get_def typeof_number_def)
qed

text \<open>
  The text \<open>__proto__\<close>, a line break, \<open>1\<close>, uploaded as a CSV file after a file with the
  columns \<open>Name\<close> and \<open>Amount\<close>. The assignment \<open>row['__proto__'] = 1\<close> creates no property, so
  the one row has no key. The sequence of rows is not empty, but the column list is empty
  and the Y axis is still \<open>Amount\<close>, not the empty selection.
\<close>

lemma fileExtension_p_csv:
  "fileExtension ''p.csv'' = ''csv''"
  by code_simp

lemma proto_lines:
  "nonblank_lines (''__proto__'' @ newline # ''1'') = [''__proto__'', ''1'']"
  by code_simp

lemma proto_header:
  "parseCSVLine ''__proto__'' = [''__proto__'']"
  by code_simp

lemma parseCSVFile_proto:
  "parseCSVFile (OnLoad (Some (''__proto__'' @ newline # ''1''))) = Inr [[]]"
  unfolding parseCSVFile_rows[OF proto_lines] proto_header
  by (simp add: csv_row_def obj_set_def)

lemma load_file_proto:
  "load_file decode \<lparr>name = ''p.csv'', reading = OnLoad (Some (''__proto__'' @ newline # ''1''))\<rparr> =
     ([ReadAsText], Inr [[]])"
proof -
  have n: "name \<lparr>name = ''p.csv'', reading = OnLoad (Some (''__proto__'' @ newline # ''1''))\<rparr> =
             ''p.csv''"
    by simp
  have r: "reading \<lparr>name = ''p.csv'', reading = OnLoad (Some (''__proto__'' @ newline # ''1''))\<rparr> =
             OnLoad (Some (''__proto__'' @ newline # ''1''))"
    by simp
  show ?thesis
    unfolding load_file_def Let_def n r fileExtension_p_csv parseCSVFile_proto
    by simp
qed

theorem schema_inference_counterexample:
  "snd (load_file (\<lambda>b. Inr [])
          \<lparr>name = ''p.csv'', reading = OnLoad (Some (''__proto__'' @ newline # ''1''))\<rparr>) =
     Inr [[]] \<and>
   [[]] \<noteq> ([] :: row list) \<and>
   default_y_spec (Object_keys (hd [[]])) (hd [[]]) = [] \<and>
   data (axis_effect (run_actions
       \<lparr>data = [[(''Name'', Str ''A''), (''Amount'', Num (Fin 0))]], columns = [''Name'', ''Amount''],
        xAxis = ''Name'', yAxis = ''Amount'', fileName = ''old.csv'', loading = False, error = []\<rparr>
       (handleFileUpload (\<lambda>b. Inr [])
          (Some \<lparr>name = ''p.csv'',
                 reading = OnLoad (Some (''__proto__'' @ newline # ''1''))\<rparr>)))) = [[]] \<and>
   columns (axis_effect (run_actions
       \<lparr>data = [[(''Name'', Str ''A''), (''Amount'', Num (Fin 0))]], columns = [''Name'', ''Amount''],
        xAxis = ''Name'', yAxis = ''Amount'', fileName = ''old.csv'', loading = False, error = []\<rparr>
       (handleFileUpload (\<lambda>b. Inr [])
          (Some \<lparr>name = ''p.csv'',
                 reading = OnLoad (Some (''__proto__'' @ newline # ''1''))\<rparr>)))) = [] \<and>
   yAxis (axis_effect (run_actions
       \<lparr>data = [[(''Name'', Str ''A''), (''Amount'', Num (Fin 0))]], columns = [''Name'', ''Amount''],
        xAxis = ''Name'', yAxis = ''Amount'', fileName = ''old.csv'', loading = False, error = []\<rparr>
       (handleFileUpload (\<lambda>b. Inr [])
          (Some \<lparr>name = ''p.csv'',
                 reading = OnLoad (Some (''__proto__'' @ newline # ''1''))\<rparr>)))) = ''Amount'' \<and>
   yAxis (axis_effect (run_actions
       \<lparr>data = [[(''Name'', Str ''A''), (''Amount'', Num (Fin 0))]], columns = [''Name'', ''Amount''],
        xAxis = ''Name'', yAxis = ''Amount'', fileName = ''old.csv'', loading = False, error = []\<rparr>
       (handleFileUpload (\<lambda>b. Inr [])
          (Some \<lparr>name = ''p.csv'',
                 reading = OnLoad (Some (''__proto__'' @ newline # ''1''))\<rparr>)))) \<noteq>
     default_y_spec (Object_keys (hd [[]])) (hd [[]])"
proof -
  have s: "snd (load_file (\<lambda>b. Inr [])
             \<lparr>name = ''p.csv'', reading = OnLoad (Some (''__proto__'' @ newline # ''1''))\<rparr>) =
           Inr [[]]"
    unfolding load_file_proto by simp
  have h: "handleFileUpload (\<lambda>b. Inr [])
             (Some \<lparr>name = ''p.csv'',
                    reading = OnLoad (Some (''__proto__'' @ newline # ''1''))\<rparr>) =
           [SetLoading True, SetError [], SetFileName ''p.csv'', SetData [], SetColumns [],
            ReadAsText, SetData [[]], SetColumns [], SetLoading False]"
    using handleFileUpload_rows[OF s] unfolding load_file_proto
    by (simp add: Object_keys_def)
  have y: "default_y_spec (Object_keys (hd [[]])) (hd [[]]) = []"
    by (simp add: default_y_spec_def Object_keys_def)
  show ?thesis
    unfolding h s y
    by (simp add: run_actions_def axis_effect_def)
qed

section \<open>Facts about rounding\<close>

lemma bit_length_bounds:
  "0 < n \<Longrightarrow> 2 ^ (bit_length n - 1) \<le> n \<and> n < 2 ^ bit_length n"
proof (induction n rule: bit_length.induct)
  case (1 n)
  show ?case
  proof (cases "n div 2 \<le> 0")
    case True
    with 1(2) have "n = 1" by linarith
    then show ?thesis by (simp add: bit_length.simps)
  next
    case False
    then have p: "0 < n div 2" by simp
    from 1(1)[OF _ p] 1(2)
    have ih: "2 ^ (bit_length (n div 2) - 1) \<le> n div 2 \<and> n div 2 < 2 ^ bit_length (n div 2)"
      by simp
    have b: "bit_length n = Suc (bit_length (n div 2))"
      using 1(2) by (subst bit_length.simps) simp
    have pos: "0 < bit_length (n div 2)"
      using p by (subst bit_length.simps) simp
    then obtain k where k: "bit_length (n div 2) = Suc k"
      by (cases "bit_length (n div 2)") auto
    from ih show ?thesis
      unfolding b k by simp linarith
  qed
qed

lemma bit_length_unique:
  assumes "2 ^ k \<le> n" "n < 2 ^ Suc k"
  shows "bit_length n = Suc k"
proof -
  have "(0::int) < 2 ^ k" by simp
  then have n: "0 < n" using assms(1) by linarith
  from bit_length_bounds[OF n]
  have b: "2 ^ (bit_length n - 1) \<le> n" "n < 2 ^ bit_length n" by auto
  have "(2::int) ^ k < 2 ^ bit_length n" using assms(1) b(2) by linarith
  then have 1: "k < bit_length n" by (simp add: power_strict_increasing_iff)
  have "(2::int) ^ (bit_length n - 1) < 2 ^ Suc k" using assms(2) b(1) by linarith
  then have 2: "bit_length n - 1 < Suc k" by (simp only: power_strict_increasing_iff)
  from 1 2 show ?thesis by linarith
qed

lemma bit_length_nonpos:
  "n \<le> 0 \<Longrightarrow> bit_length n = 0"
  by (subst bit_length.simps) simp

lemma bit_length_pos:
  "0 < n \<Longrightarrow> 0 < bit_length n"
  by (subst bit_length.simps) simp

lemma round_half_even_bounds:
  assumes "0 \<le> a" "0 < d"
  shows "a div d \<le> round_half_even a d" "round_half_even a d \<le> a div d + 1"
  by (simp_all add: round_half_even_def Let_def)

lemma round_half_even_divides:
  assumes "0 < d" "d dvd a"
  shows "round_half_even a d = a div d"
  using assms by (simp add: round_half_even_def Let_def)

lemma pow2_le_div:
  assumes "(2::int) ^ k \<le> a" "j \<le> k"
  shows "2 ^ (k - j) \<le> a div 2 ^ j"
proof -
  have "(2::int) ^ k = 2 ^ (k - j) * 2 ^ j"
    using assms(2) by (simp add: power_add[symmetric])
  then have "2 ^ (k - j) * 2 ^ j \<le> a"
    using assms(1) by simp
  then have "(2 ^ (k - j) * 2 ^ j) div 2 ^ j \<le> a div 2 ^ j"
    by (rule zdiv_mono1) simp
  then show ?thesis by simp
qed

text \<open>Rounding an integer number of units keeps a positive number positive.\<close>

lemma round_mag_one_pos:
  assumes "0 < a"
  shows "0 < round_mag a 1"
proof -
  define L where "L = bit_length a"
  define sh where "sh = L - 53"
  have L: "0 < L" "2 ^ (L - 1) \<le> a"
    using bit_length_bounds[OF assms] bit_length_pos[OF assms] by (simp_all add: L_def)
  have "sh \<le> L - 1"
    using L(1) by (simp add: sh_def)
  from pow2_le_div[OF L(2) this]
  have "(1::int) \<le> a div 2 ^ sh"
    by (smt (verit) one_le_power)
  moreover have "a div 2 ^ sh \<le> round_half_even a (2 ^ sh)"
    using assms by (intro round_half_even_bounds) simp_all
  ultimately have "0 < round_half_even a (2 ^ sh) * 2 ^ sh"
    by simp
  then show ?thesis
    by (simp add: round_mag_def Let_def L_def sh_def)
qed

lemma round_mag_zero:
  "0 < d \<Longrightarrow> round_mag 0 d = 0"
  by (simp add: round_mag_def round_half_even_def Let_def)

lemma round_double_not_NaN:
  "round_double p q \<noteq> NaN"
  by (simp add: round_double_def Let_def)

lemma round_double_positive_iff:
  "js_less (Fin 0) (round_double p 1) \<longleftrightarrow> 0 < p"
proof (cases "0 < p")
  case True
  then have "0 < round_mag \<bar>p\<bar> 1"
    by (simp add: round_mag_one_pos)
  then show ?thesis
    using True by (simp add: round_double_def Let_def)
next
  case False
  show ?thesis
  proof (cases "p = 0")
    case True
    then show ?thesis
      by (simp add: round_double_def Let_def round_mag_zero overflow_threshold_def)
  next
    case False
    then have n: "p < 0" using \<open>\<not> 0 < p\<close> by simp
    then have "0 < round_mag \<bar>p\<bar> 1"
      by (simp add: round_mag_one_pos)
    then show ?thesis
      using n by (simp add: round_double_def Let_def)
  qed
qed

section \<open>The projection: filter, stable descending sort, truncation\<close>

lemma is_valid_number_iff:
  "is_valid_number v \<longleftrightarrow> (\<exists>n. v = Num n \<and> n \<noteq> NaN)"
  by (cases v) (simp_all add: is_valid_number_def typeof_number_def isNaN_def)

lemma js_le_desc_rank:
  "a \<noteq> NaN \<Longrightarrow> b \<noteq> NaN \<Longrightarrow> js_le b a \<longleftrightarrow> desc_rank a \<le> desc_rank b"
  by (cases a; cases b) (auto simp add: js_le_def desc_rank_def)

lemma desc_rank_inj:
  "desc_rank a = desc_rank b \<longleftrightarrow> a = b"
  by (cases a; cases b) (simp_all add: desc_rank_def)

text \<open>The comparator \<open>b[y] - a[y]\<close> is positive exactly when \<open>a[y] < b[y]\<close>.\<close>

lemma difference_positive_iff:
  "a \<noteq> NaN \<Longrightarrow> b \<noteq> NaN \<Longrightarrow> js_less (Fin 0) (js_sub b a) \<longleftrightarrow> js_less a b"
  by (cases a; cases b) (simp_all add: js_sub_def round_double_positive_iff)

lemma not_after_desc_rank:
  assumes "a \<noteq> NaN" "b \<noteq> NaN"
  shows "\<not> js_less (Fin 0) (js_sub b a) \<longleftrightarrow> desc_rank a \<le> desc_rank b"
proof -
  have "js_less a b \<longleftrightarrow> \<not> js_le b a"
    using assms by (cases a; cases b) (auto simp add: js_le_def)
  then show ?thesis
    using assms by (simp add: difference_positive_iff js_le_desc_rank)
qed

lemma insert_sorted_insort_key:
  assumes "v a \<noteq> NaN" "\<forall>b\<in>set bs. v b \<noteq> NaN"
  shows "insert_sorted (\<lambda>a b. js_sub (v b) (v a)) a bs = insort_key (\<lambda>r. desc_rank (v r)) a bs"
  using assms by (induction bs) (simp_all add: not_after_def not_after_desc_rank)

lemma js_sort_sort_key:
  assumes "\<forall>b\<in>set xs. v b \<noteq> NaN"
  shows "js_sort (\<lambda>a b. js_sub (v b) (v a)) xs = sort_key (\<lambda>r. desc_rank (v r)) xs"
  using assms
proof (induction xs)
  case Nil
  then show ?case by (simp add: js_sort_def)
next
  case (Cons a xs)
  then have "js_sort (\<lambda>a b. js_sub (v b) (v a)) xs = sort_key (\<lambda>r. desc_rank (v r)) xs"
    by simp
  moreover have "\<forall>b\<in>set (sort_key (\<lambda>r. desc_rank (v r)) xs). v b \<noteq> NaN"
    using Cons.prems by simp
  ultimately show ?case
    using Cons.prems by (simp add: js_sort_def insert_sorted_insort_key)
qed

lemma numeric_rows_valid:
  "r \<in> set (numeric_rows rows y) \<Longrightarrow> y_value y r \<noteq> NaN"
  by (auto simp add: numeric_rows_def y_value_def is_valid_number_iff)

lemma processedData_projection_spec:
  assumes "x \<noteq> []" "y \<noteq> []"
  shows "processedData rows x y = projection_spec rows y"
proof (cases "rows = []")
  case True
  then show ?thesis
    by (simp add: processedData_def projection_spec_def numeric_rows_def)
next
  case False
  have "js_sort (\<lambda>a b. js_sub (y_value y b) (y_value y a)) (numeric_rows rows y) =
          sort_key (\<lambda>r. desc_rank (y_value y r)) (numeric_rows rows y)"
    by (rule js_sort_sort_key) (simp add: numeric_rows_valid)
  then show ?thesis
    using False assms
    by (simp add: processedData_def projection_spec_def MAX_DISPLAY_DATA_def
        numeric_rows_def y_value_def)
qed

lemma stable_descending_sort:
  fixes y :: string and rows :: "row list"
  defines "F \<equiv> numeric_rows rows y"
  defines "S \<equiv> sort_key (\<lambda>r. desc_rank (y_value y r)) F"
  shows "set S = set F"
    and "length S = length F"
    and "sorted_wrt (\<lambda>a b. js_le (y_value y b) (y_value y a)) S"
    and "filter (\<lambda>r. y_value y r = v) S = filter (\<lambda>r. y_value y r = v) F"
proof -
  show s: "set S = set F" and "length S = length F"
    by (simp_all add: S_def)
  have "sorted (map (\<lambda>r. desc_rank (y_value y r)) S)"
    by (simp add: S_def)
  then have "sorted_wrt (\<lambda>a b. desc_rank (y_value y a) \<le> desc_rank (y_value y b)) S"
    by (simp add: sorted_map)
  moreover have "js_le (y_value y b) (y_value y a)"
    if "a \<in> set S" "b \<in> set S" "desc_rank (y_value y a) \<le> desc_rank (y_value y b)" for a b
    using that s numeric_rows_valid[of _ rows y] by (simp add: F_def js_le_desc_rank)
  ultimately show "sorted_wrt (\<lambda>a b. js_le (y_value y b) (y_value y a)) S"
    by (rule sorted_wrt_mono_rel[rotated]) blast
  have "filter (\<lambda>r. desc_rank (y_value y r) = desc_rank v) S =
          filter (\<lambda>r. desc_rank (y_value y r) = desc_rank v) F"
    unfolding S_def by (rule sort_key_stable)
  then show "filter (\<lambda>r. y_value y r = v) S = filter (\<lambda>r. y_value y r = v) F"
    by (simp add: desc_rank_inj)
qed

text \<open>
  Claim C2, amended. When both axis selections are non-empty, the projection is the first
  100 rows of a sequence \<open>S\<close> that has the rows with a Number other than NaN in the Y column,
  as many as there are, in descending order of that value, the rows with the same value
  in the order they have in the dataset; it is the specification's projection. For every
  axis pair the projection has at most \<open>min(100, number of rows with a numeric Y value)\<close>
  rows.
\<close>

theorem projection_is_filter_sort_truncate:
  "(x \<noteq> [] \<and> y \<noteq> [] \<longrightarrow>
      processedData rows x y = projection_spec rows y \<and>
      (\<exists>S. processedData rows x y = take 100 S \<and>
           set S = set (numeric_rows rows y) \<and>
           length S = length (numeric_rows rows y) \<and>
           sorted_wrt (\<lambda>a b. js_le (y_value y b) (y_value y a)) S \<and>
           (\<forall>v. filter (\<lambda>r. y_value y r = v) S =
                filter (\<lambda>r. y_value y r = v) (numeric_rows rows y)))) \<and>
   length (processedData rows x y) \<le> min 100 (length (numeric_rows rows y))"
proof (intro conjI impI)
  assume a: "x \<noteq> [] \<and> y \<noteq> []"
  then show p: "processedData rows x y = projection_spec rows y"
    by (simp add: processedData_projection_spec)
  show "\<exists>S. processedData rows x y = take 100 S \<and>
           set S = set (numeric_rows rows y) \<and>
           length S = length (numeric_rows rows y) \<and>
           sorted_wrt (\<lambda>a b. js_le (y_value y b) (y_value y a)) S \<and>
           (\<forall>v. filter (\<lambda>r. y_value y r = v) S =
                filter (\<lambda>r. y_value y r = v) (numeric_rows rows y))"
    using stable_descending_sort[where y = y and rows = rows]
    by (intro exI[of _ "sort_key (\<lambda>r. desc_rank (y_value y r)) (numeric_rows rows y)"])
      (simp add: p projection_spec_def)
next
  show "length (processedData rows x y) \<le> min 100 (length (numeric_rows rows y))"
  proof (cases "x \<noteq> [] \<and> y \<noteq> []")
    case True
    then show ?thesis
      by (simp add: processedData_projection_spec projection_spec_def)
  next
    case False
    then show ?thesis
      by (auto simp add: processedData_def)
  qed
qed

lemma projection_spec_example:
  "projection_spec [[(''n'', Str ''a''), (''v'', Num (Fin 1))],
                    [(''n'', Str ''b''), (''v'', Str ''x'')],
                    [(''n'', Str ''c''), (''v'', Num (Fin 2))]] ''v'' =
     [[(''n'', Str ''c''), (''v'', Num (Fin 2))], [(''n'', Str ''a''), (''v'', Num (Fin 1))]]"
  by code_simp

theorem projection_witness:
  "''n'' \<noteq> [] \<and> ''v'' \<noteq> [] \<and>
   processedData [[(''n'', Str ''a''), (''v'', Num (Fin 1))],
                  [(''n'', Str ''b''), (''v'', Str ''x'')],
                  [(''n'', Str ''c''), (''v'', Num (Fin 2))]] ''n'' ''v'' =
     [[(''n'', Str ''c''), (''v'', Num (Fin 2))], [(''n'', Str ''a''), (''v'', Num (Fin 1))]]"
  using projection_is_filter_sort_truncate
    [of "''n''" "''v''"
        "[[(''n'', Str ''a''), (''v'', Num (Fin 1))],
          [(''n'', Str ''b''), (''v'', Str ''x'')],
          [(''n'', Str ''c''), (''v'', Num (Fin 2))]]"]
  by (simp add: projection_spec_example)

lemma projection_spec_single:
  "projection_spec [[(''v'', Num (Fin 0))]] ''v'' = [[(''v'', Num (Fin 0))]]"
  by code_simp

text \<open>
  Claim C2 as stated fails on the axis pair with an empty X selection: the dataset has one
  row with the number 0 in column \<open>v\<close>, the specification's projection is that row, and
  the projection of the code is empty.
\<close>

theorem projection_counterexample:
  "projection_spec [[(''v'', Num (Fin 0))]] ''v'' = [[(''v'', Num (Fin 0))]] \<and>
   processedData [[(''v'', Num (Fin 0))]] [] ''v'' = [] \<and>
   processedData [[(''v'', Num (Fin 0))]] [] ''v'' \<noteq> projection_spec [[(''v'', Num (Fin 0))]] ''v''"
  by (simp add: projection_spec_single processedData_def)

section \<open>The strings that are numbers\<close>

lemma digit_of_decimal:
  "(\<exists>d. digit_of c = Some d \<and> d < 10) \<longleftrightarrow> is_digit c"
  by (auto simp add: digit_of_def is_digit_def Let_def split: if_splits)

lemma digit_of_hex:
  "(\<exists>d. digit_of c = Some d \<and> d < 16) \<longleftrightarrow> is_hex_digit c"
  by (auto simp add: digit_of_def is_hex_digit_def is_digit_def Let_def split: if_splits)

lemma digit_of_octal:
  "(\<exists>d. digit_of c = Some d \<and> d < 8) \<longleftrightarrow> is_octal_digit c"
  by (auto simp add: digit_of_def is_octal_digit_def Let_def split: if_splits)

lemma of_char_48:
  "(of_char c :: int) = 48 \<longleftrightarrow> c = CHR ''0''"
proof
  assume "(of_char c :: int) = 48"
  then have "(of_char c :: int) = of_char (CHR ''0'')" by simp
  then show "c = CHR ''0''" by (simp only: of_char_eq_iff)
qed simp

lemma of_char_49:
  "(of_char c :: int) = 49 \<longleftrightarrow> c = CHR ''1''"
proof
  assume "(of_char c :: int) = 49"
  then have "(of_char c :: int) = of_char (CHR ''1'')" by simp
  then show "c = CHR ''1''" by (simp only: of_char_eq_iff)
qed simp

lemma digit_of_binary:
  "(\<exists>d. digit_of c = Some d \<and> d < 2) \<longleftrightarrow> is_binary_digit c"
proof -
  have "(\<exists>d. digit_of c = Some d \<and> d < 2) \<longleftrightarrow> (of_char c :: int) = 48 \<or> (of_char c :: int) = 49"
    by (auto simp add: digit_of_def Let_def split: if_splits)
  then show ?thesis
    by (simp add: of_char_48 of_char_49 is_binary_digit_def)
qed

lemma digits_value_Some_iff:
  "(\<exists>n. digits_value base acc s = Some n) \<longleftrightarrow> list_all (\<lambda>c. \<exists>d. digit_of c = Some d \<and> d < base) s"
proof (induction s arbitrary: acc)
  case Nil
  then show ?case by simp
next
  case (Cons c s)
  show ?case
  proof (cases "digit_of c")
    case None
    then show ?thesis by simp
  next
    case (Some d)
    then show ?thesis using Cons[of "acc * base + d"] by simp
  qed
qed

lemma parse_digits_decimal:
  "(\<exists>n. parse_digits 10 s = Some n) \<longleftrightarrow> s \<noteq> [] \<and> list_all is_digit s"
  by (simp add: parse_digits_def digits_value_Some_iff digit_of_decimal)

lemma parse_digits_opt_decimal:
  "(\<exists>n. parse_digits_opt s = Some n) \<longleftrightarrow> list_all is_digit s"
  by (simp add: parse_digits_opt_def digits_value_Some_iff digit_of_decimal)

lemma digit_not_sign:
  "is_digit c \<Longrightarrow> c \<noteq> CHR ''+'' \<and> c \<noteq> CHR ''-'' \<and> c \<noteq> CHR ''.'' \<and> \<not> is_exp_char c"
  by (auto simp add: is_digit_def is_exp_char_def)

lemma parse_exponent_iff:
  "(\<exists>x. parse_exponent ep = Some x) \<longleftrightarrow>
     (\<exists>sg ds. ep = sg @ ds \<and> is_sign sg \<and> ds \<noteq> [] \<and> list_all is_digit ds)"
proof
  assume a: "\<exists>x. parse_exponent ep = Some x"
  then obtain c cs where ep: "ep = c # cs"
    by (cases ep) (auto simp add: parse_exponent_def)
  show "\<exists>sg ds. ep = sg @ ds \<and> is_sign sg \<and> ds \<noteq> [] \<and> list_all is_digit ds"
  proof (cases "c = CHR ''+'' \<or> c = CHR ''-''")
    case True
    then have "\<exists>n. parse_digits 10 cs = Some n"
      using a ep by (auto simp add: parse_exponent_def)
    then have "cs \<noteq> [] \<and> list_all is_digit cs"
      by (simp add: parse_digits_decimal)
    moreover have "ep = [c] @ cs" "is_sign [c]"
      using True ep by (auto simp add: is_sign_def)
    ultimately show ?thesis by blast
  next
    case False
    then have "\<exists>n. parse_digits 10 ep = Some n"
      using a ep by (auto simp add: parse_exponent_def)
    then have "ep \<noteq> [] \<and> list_all is_digit ep"
      by (simp add: parse_digits_decimal)
    moreover have "ep = [] @ ep" "is_sign []"
      by (simp_all add: is_sign_def)
    ultimately show ?thesis by blast
  qed
next
  assume "\<exists>sg ds. ep = sg @ ds \<and> is_sign sg \<and> ds \<noteq> [] \<and> list_all is_digit ds"
  then obtain sg ds where s: "ep = sg @ ds" "is_sign sg" "ds \<noteq> []" "list_all is_digit ds"
    by blast
  then obtain n where n: "parse_digits 10 ds = Some n"
    using parse_digits_decimal[of ds] by blast
  obtain d ds' where d: "ds = d # ds'" "is_digit d"
    using s(3,4) by (cases ds) auto
  from s(2) show "\<exists>x. parse_exponent ep = Some x"
    unfolding is_sign_def
  proof (elim disjE)
    assume "sg = []"
    then show ?thesis
      using s(1) n d digit_not_sign[of d] by (simp add: parse_exponent_def)
  next
    assume "sg = ''+''"
    then show ?thesis
      using s(1) n by (simp add: parse_exponent_def)
  next
    assume "sg = ''-''"
    then show ?thesis
      using s(1) n by (simp add: parse_exponent_def)
  qed
qed

lemma split_at_first:
  assumes "\<forall>c\<in>set m. P c" "rest = [] \<or> \<not> P (hd rest)"
  shows "takeWhile P (m @ rest) = m" "dropWhile P (m @ rest) = rest"
proof -
  have t: "takeWhile P rest = []" and d: "dropWhile P rest = rest"
    using assms(2) by (cases rest; simp)+
  show "takeWhile P (m @ rest) = m"
    using assms(1) t by (simp add: takeWhile_append2)
  show "dropWhile P (m @ rest) = rest"
    using assms(1) d by (simp add: dropWhile_append2)
qed

lemma dropWhile_hd:
  "dropWhile P s = c # cs \<Longrightarrow> \<not> P c"
  by (metis hd_dropWhile list.distinct(1) list.sel(1))

lemma parse_mantissa_no_dot:
  assumes "\<forall>c\<in>set ip. c \<noteq> CHR ''.''"
  shows "parse_mantissa ip = map_option (\<lambda>n. (n, 0)) (parse_digits 10 ip)"
proof -
  have t: "takeWhile (\<lambda>c. c \<noteq> CHR ''.'') ip = ip" "dropWhile (\<lambda>c. c \<noteq> CHR ''.'') ip = []"
    using assms split_at_first[of ip "\<lambda>c. c \<noteq> CHR ''.''" "[]"] by simp_all
  show ?thesis
    unfolding parse_mantissa_def Let_def t by simp
qed

lemma parse_mantissa_dot:
  assumes "\<forall>c\<in>set ip. c \<noteq> CHR ''.''"
  shows "parse_mantissa (ip @ CHR ''.'' # fp) =
           (if ip = [] \<and> fp = [] then None
            else map_option (\<lambda>n. (n, length fp)) (parse_digits_opt (ip @ fp)))"
proof -
  have t: "takeWhile (\<lambda>c. c \<noteq> CHR ''.'') (ip @ CHR ''.'' # fp) = ip"
    "dropWhile (\<lambda>c. c \<noteq> CHR ''.'') (ip @ CHR ''.'' # fp) = CHR ''.'' # fp"
    using assms split_at_first[of ip "\<lambda>c. c \<noteq> CHR ''.''" "CHR ''.'' # fp"] by simp_all
  show ?thesis
    unfolding parse_mantissa_def Let_def t by simp
qed

lemma split_at_char:
  "(\<forall>c\<in>set s. P c) \<or> (\<exists>a c b. s = a @ c # b \<and> (\<forall>x\<in>set a. P x) \<and> \<not> P c)"
proof (cases "dropWhile P s")
  case Nil
  then show ?thesis by (simp add: dropWhile_eq_Nil_conv)
next
  case (Cons c b)
  then have "\<not> P c" by (rule dropWhile_hd)
  moreover have "s = takeWhile P s @ c # b"
  proof -
    have "takeWhile P s @ dropWhile P s = s"
      by (rule takeWhile_dropWhile_id)
    then show ?thesis
      unfolding Cons by (rule sym)
  qed
  moreover have "\<forall>x\<in>set (takeWhile P s). P x"
    by (blast dest: set_takeWhileD)
  ultimately show ?thesis by blast
qed

lemma digits_no_dot:
  "list_all is_digit s \<Longrightarrow> \<forall>c\<in>set s. c \<noteq> CHR ''.''"
  using digit_not_sign by (auto simp add: list_all_iff)

lemma mantissa_no_dot:
  assumes "\<forall>c\<in>set m. c \<noteq> CHR ''.''"
  shows "mantissa m \<longleftrightarrow> m \<noteq> [] \<and> list_all is_digit m"
proof
  assume "mantissa m"
  then obtain ip fp where d: "list_all is_digit ip"
    and c: "(m = ip \<and> ip \<noteq> []) \<or> (m = ip @ CHR ''.'' # fp \<and> (ip \<noteq> [] \<or> fp \<noteq> []))"
    unfolding mantissa_def by blast
  have "m \<noteq> ip @ CHR ''.'' # fp"
  proof
    assume "m = ip @ CHR ''.'' # fp"
    then have "CHR ''.'' \<in> set m" by simp
    then show False using assms by blast
  qed
  with c have "m = ip \<and> ip \<noteq> []"
    by blast
  then show "m \<noteq> [] \<and> list_all is_digit m"
    using d by simp
next
  assume a: "m \<noteq> [] \<and> list_all is_digit m"
  have "list_all is_digit m \<and> list_all is_digit [] \<and>
        ((m = m \<and> m \<noteq> []) \<or> (m = m @ CHR ''.'' # [] \<and> (m \<noteq> [] \<or> [] \<noteq> ([]::string))))"
    using a by simp
  then show "mantissa m"
    unfolding mantissa_def by (intro exI[of _ m] exI[of _ "[]"])
qed

lemma mantissa_dot:
  assumes "\<forall>c\<in>set ip. c \<noteq> CHR ''.''"
  shows "mantissa (ip @ CHR ''.'' # fp) \<longleftrightarrow>
           list_all is_digit ip \<and> list_all is_digit fp \<and> (ip \<noteq> [] \<or> fp \<noteq> [])"
proof
  assume "mantissa (ip @ CHR ''.'' # fp)"
  then obtain ip' fp' where d: "list_all is_digit ip'" "list_all is_digit fp'"
    and c: "(ip @ CHR ''.'' # fp = ip' \<and> ip' \<noteq> []) \<or>
            (ip @ CHR ''.'' # fp = ip' @ CHR ''.'' # fp' \<and> (ip' \<noteq> [] \<or> fp' \<noteq> []))"
    unfolding mantissa_def by blast
  have nd: "\<forall>c\<in>set ip'. c \<noteq> CHR ''.''"
    using d(1) by (rule digits_no_dot)
  from c show "list_all is_digit ip \<and> list_all is_digit fp \<and> (ip \<noteq> [] \<or> fp \<noteq> [])"
  proof
    assume "ip @ CHR ''.'' # fp = ip' \<and> ip' \<noteq> []"
    then have "CHR ''.'' \<in> set ip'" by auto
    then show ?thesis using nd by blast
  next
    assume e: "ip @ CHR ''.'' # fp = ip' @ CHR ''.'' # fp' \<and> (ip' \<noteq> [] \<or> fp' \<noteq> [])"
    have "takeWhile (\<lambda>c. c \<noteq> CHR ''.'') (ip @ CHR ''.'' # fp) = ip"
      "dropWhile (\<lambda>c. c \<noteq> CHR ''.'') (ip @ CHR ''.'' # fp) = CHR ''.'' # fp"
      using assms split_at_first[of ip "\<lambda>c. c \<noteq> CHR ''.''" "CHR ''.'' # fp"] by simp_all
    moreover have "takeWhile (\<lambda>c. c \<noteq> CHR ''.'') (ip' @ CHR ''.'' # fp') = ip'"
      "dropWhile (\<lambda>c. c \<noteq> CHR ''.'') (ip' @ CHR ''.'' # fp') = CHR ''.'' # fp'"
      using nd split_at_first[of ip' "\<lambda>c. c \<noteq> CHR ''.''" "CHR ''.'' # fp'"] by simp_all
    ultimately have "ip = ip'" "fp = fp'"
      using e by simp_all
    then show ?thesis using d e by simp
  qed
next
  assume "list_all is_digit ip \<and> list_all is_digit fp \<and> (ip \<noteq> [] \<or> fp \<noteq> [])"
  then have "list_all is_digit ip \<and> list_all is_digit fp \<and>
      ((ip @ CHR ''.'' # fp = ip \<and> ip \<noteq> []) \<or>
       (ip @ CHR ''.'' # fp = ip @ CHR ''.'' # fp \<and> (ip \<noteq> [] \<or> fp \<noteq> [])))"
    by simp
  then show "mantissa (ip @ CHR ''.'' # fp)"
    unfolding mantissa_def by (intro exI[of _ ip] exI[of _ fp])
qed

lemma parse_mantissa_iff:
  "(\<exists>x. parse_mantissa m = Some x) \<longleftrightarrow> mantissa m"
proof -
  from split_at_char[of m "\<lambda>c. c \<noteq> CHR ''.''"]
  consider (nodot) "\<forall>c\<in>set m. c \<noteq> CHR ''.''"
    | (dot) ip fp where "m = ip @ CHR ''.'' # fp" "\<forall>x\<in>set ip. x \<noteq> CHR ''.''"
    by auto
  then show ?thesis
  proof cases
    case nodot
    then show ?thesis
      using parse_digits_decimal[of m]
      by (simp add: parse_mantissa_no_dot mantissa_no_dot)
  next
    case dot
    then show ?thesis
      using parse_digits_opt_decimal[of "ip @ fp"]
      by (simp add: parse_mantissa_dot mantissa_dot)
  qed
qed

lemma mantissa_chars:
  assumes "mantissa m"
  shows "m \<noteq> []" and "\<forall>c\<in>set m. is_digit c \<or> c = CHR ''.''"
proof -
  from assms obtain ip fp where d: "list_all is_digit ip" "list_all is_digit fp"
    and c: "(m = ip \<and> ip \<noteq> []) \<or> (m = ip @ CHR ''.'' # fp \<and> (ip \<noteq> [] \<or> fp \<noteq> []))"
    unfolding mantissa_def by blast
  from c show "m \<noteq> []" by auto
  from c d show "\<forall>c\<in>set m. is_digit c \<or> c = CHR ''.''"
    by (auto simp add: list_all_iff)
qed

lemma mantissa_no_exp_char:
  "mantissa m \<Longrightarrow> \<forall>c\<in>set m. \<not> is_exp_char c"
  using mantissa_chars(2)[of m] digit_not_sign by (auto simp add: is_exp_char_def)

lemma parse_unsigned_no_exp:
  assumes "\<forall>c\<in>set m. \<not> is_exp_char c"
  shows "parse_unsigned_decimal m =
           (case parse_mantissa m of None \<Rightarrow> None | Some (mm, fl) \<Rightarrow> Some (mm, - int fl))"
proof -
  have t: "takeWhile (\<lambda>c. \<not> is_exp_char c) m = m" "dropWhile (\<lambda>c. \<not> is_exp_char c) m = []"
    using assms split_at_first[of m "\<lambda>c. \<not> is_exp_char c" "[]"] by simp_all
  show ?thesis
    unfolding parse_unsigned_decimal_def Let_def t by (cases "parse_mantissa m") auto
qed

lemma parse_unsigned_exp:
  assumes "\<forall>c\<in>set m. \<not> is_exp_char c" "is_exp_char e"
  shows "parse_unsigned_decimal (m @ e # ep) =
           (case parse_mantissa m of
              None \<Rightarrow> None
            | Some (mm, fl) \<Rightarrow> map_option (\<lambda>x. (mm, x - int fl)) (parse_exponent ep))"
proof -
  have t: "takeWhile (\<lambda>c. \<not> is_exp_char c) (m @ e # ep) = m"
    "dropWhile (\<lambda>c. \<not> is_exp_char c) (m @ e # ep) = e # ep"
    using assms split_at_first[of m "\<lambda>c. \<not> is_exp_char c" "e # ep"] by simp_all
  show ?thesis
    unfolding parse_unsigned_decimal_def Let_def t by (cases "parse_mantissa m") auto
qed

lemma unsigned_decimal_no_exp:
  assumes "\<forall>c\<in>set u. \<not> is_exp_char c"
  shows "unsigned_decimal u \<longleftrightarrow> mantissa u"
proof
  assume "unsigned_decimal u"
  then obtain m ex where u: "u = m @ ex" "mantissa m" "ex = [] \<or> exponent_part ex"
    unfolding unsigned_decimal_def by blast
  have "\<not> exponent_part ex"
  proof
    assume "exponent_part ex"
    then obtain e r where "ex = e # r" "is_exp_char e"
      unfolding exponent_part_def by blast
    then have "e \<in> set u" using u(1) by simp
    then show False using assms \<open>is_exp_char e\<close> by blast
  qed
  then show "mantissa u" using u by simp
next
  assume "mantissa u"
  then have "u = u @ [] \<and> mantissa u \<and> ([] = ([]::string) \<or> exponent_part [])"
    by simp
  then show "unsigned_decimal u"
    unfolding unsigned_decimal_def by (intro exI[of _ u] exI[of _ "[]"])
qed

lemma unsigned_decimal_exp:
  assumes "\<forall>c\<in>set m. \<not> is_exp_char c" "is_exp_char e"
  shows "unsigned_decimal (m @ e # ep) \<longleftrightarrow>
           mantissa m \<and> (\<exists>sg ds. ep = sg @ ds \<and> is_sign sg \<and> ds \<noteq> [] \<and> list_all is_digit ds)"
proof
  assume "unsigned_decimal (m @ e # ep)"
  then obtain m' ex where u: "m @ e # ep = m' @ ex" "mantissa m'" "ex = [] \<or> exponent_part ex"
    unfolding unsigned_decimal_def by blast
  have ne: "\<forall>c\<in>set m'. \<not> is_exp_char c"
    using u(2) by (rule mantissa_no_exp_char)
  have "ex \<noteq> []"
  proof
    assume "ex = []"
    then have "e \<in> set m'" using u(1) by (metis append_Nil2 in_set_conv_decomp)
    then show False using ne assms(2) by blast
  qed
  then have "exponent_part ex" using u(3) by simp
  then obtain e' sg ds where ex: "ex = e' # sg @ ds" "is_exp_char e'" "is_sign sg" "ds \<noteq> []"
    "list_all is_digit ds"
    unfolding exponent_part_def by blast
  have "takeWhile (\<lambda>c. \<not> is_exp_char c) (m @ e # ep) = m"
    "dropWhile (\<lambda>c. \<not> is_exp_char c) (m @ e # ep) = e # ep"
    using assms split_at_first[of m "\<lambda>c. \<not> is_exp_char c" "e # ep"] by simp_all
  moreover have "takeWhile (\<lambda>c. \<not> is_exp_char c) (m' @ e' # sg @ ds) = m'"
    "dropWhile (\<lambda>c. \<not> is_exp_char c) (m' @ e' # sg @ ds) = e' # sg @ ds"
    using ne ex(2) split_at_first[of m' "\<lambda>c. \<not> is_exp_char c" "e' # sg @ ds"] by simp_all
  ultimately have "m = m'" "ep = sg @ ds"
    using u(1) ex(1) by simp_all
  then show "mantissa m \<and> (\<exists>sg ds. ep = sg @ ds \<and> is_sign sg \<and> ds \<noteq> [] \<and> list_all is_digit ds)"
    using u(2) ex by blast
next
  assume a: "mantissa m \<and> (\<exists>sg ds. ep = sg @ ds \<and> is_sign sg \<and> ds \<noteq> [] \<and> list_all is_digit ds)"
  then obtain sg ds where s: "ep = sg @ ds" "is_sign sg" "ds \<noteq> []" "list_all is_digit ds"
    by blast
  have "exponent_part (e # ep)"
    unfolding exponent_part_def using s assms(2) by blast
  then have "m @ e # ep = m @ (e # ep) \<and> mantissa m \<and> (e # ep = [] \<or> exponent_part (e # ep))"
    using a by simp
  then show "unsigned_decimal (m @ e # ep)"
    unfolding unsigned_decimal_def by (intro exI[of _ m] exI[of _ "e # ep"])
qed

lemma parse_mantissa_None_iff:
  "parse_mantissa m = None \<longleftrightarrow> \<not> mantissa m"
  using parse_mantissa_iff[of m] by (cases "parse_mantissa m") (simp_all del: split_paired_Ex)

lemma parse_exponent_None_iff:
  "parse_exponent ep = None \<longleftrightarrow>
     \<not> (\<exists>sg ds. ep = sg @ ds \<and> is_sign sg \<and> ds \<noteq> [] \<and> list_all is_digit ds)"
  using parse_exponent_iff[of ep] by (cases "parse_exponent ep") simp_all

lemma parse_unsigned_decimal_None_iff:
  "parse_unsigned_decimal u = None \<longleftrightarrow> \<not> unsigned_decimal u"
proof -
  from split_at_char[of u "\<lambda>c. \<not> is_exp_char c"]
  consider (noexp) "\<forall>c\<in>set u. \<not> is_exp_char c"
    | (exp) m e ep where "u = m @ e # ep" "\<forall>x\<in>set m. \<not> is_exp_char x" "is_exp_char e"
    by auto
  then show ?thesis
  proof cases
    case noexp
    have "parse_unsigned_decimal u = None \<longleftrightarrow> parse_mantissa u = None"
      by (cases "parse_mantissa u") (auto simp add: parse_unsigned_no_exp[OF noexp])
    then show ?thesis
      by (simp add: parse_mantissa_None_iff unsigned_decimal_no_exp[OF noexp])
  next
    case exp
    have "parse_unsigned_decimal u = None \<longleftrightarrow>
            parse_mantissa m = None \<or> parse_exponent ep = None"
      by (cases "parse_mantissa m"; cases "parse_exponent ep")
        (auto simp add: exp(1) parse_unsigned_exp[OF exp(2,3)])
    then show ?thesis
      unfolding exp(1) unsigned_decimal_exp[OF exp(2,3)] parse_mantissa_None_iff
        parse_exponent_None_iff by blast
  qed
qed

lemma decimal_to_double_not_NaN:
  "decimal_to_double neg m e \<noteq> NaN"
  by (simp add: decimal_to_double_def Let_def round_double_not_NaN)

lemma parse_signed_decimal_iff:
  "parse_signed_decimal neg u \<noteq> NaN \<longleftrightarrow> u = ''Infinity'' \<or> unsigned_decimal u"
proof (cases "u = ''Infinity''")
  case True
  then show ?thesis by (simp add: parse_signed_decimal_def)
next
  case False
  show ?thesis
  proof (cases "parse_unsigned_decimal u")
    case None
    then have "\<not> unsigned_decimal u"
      by (simp add: parse_unsigned_decimal_None_iff)
    then show ?thesis
      using None False by (simp add: parse_signed_decimal_def)
  next
    case (Some p)
    then have "unsigned_decimal u"
      using parse_unsigned_decimal_None_iff[of u] by simp
    then show ?thesis
      using Some False
      by (cases p) (simp add: parse_signed_decimal_def decimal_to_double_not_NaN)
  qed
qed

lemma parse_digits_radix:
  "parse_digits base ds = None \<longleftrightarrow>
     \<not> (ds \<noteq> [] \<and> list_all (\<lambda>c. \<exists>d. digit_of c = Some d \<and> d < base) ds)"
  using digits_value_Some_iff[of base 0 ds]
  by (cases "digits_value base 0 ds") (simp_all add: parse_digits_def)

lemma radix_of_prefix_Some:
  "radix_of_prefix t = Some base \<longleftrightarrow>
     (\<exists>p ds. t = CHR ''0'' # p # ds \<and>
        ((p = CHR ''x'' \<or> p = CHR ''X'') \<and> base = 16 \<or>
         (p = CHR ''o'' \<or> p = CHR ''O'') \<and> base = 8 \<or>
         (p = CHR ''b'' \<or> p = CHR ''B'') \<and> base = 2))"
proof (cases t)
  case Nil
  then show ?thesis by (simp add: radix_of_prefix_def)
next
  case (Cons c0 r)
  show ?thesis
  proof (cases r)
    case Nil
    then show ?thesis using Cons by (simp add: radix_of_prefix_def)
  next
    case (Cons c1 ds)
    then show ?thesis
      using \<open>t = c0 # r\<close> by (auto simp add: radix_of_prefix_def)
  qed
qed

lemma decimal_chars:
  assumes "decimal_notation t" "c \<in> set t"
  shows "is_digit c \<or> c = CHR ''.'' \<or> c = CHR ''+'' \<or> c = CHR ''-'' \<or> is_exp_char c"
proof -
  from assms(1) obtain sg m ex where t: "t = sg @ m @ ex" "is_sign sg" "mantissa m"
    "ex = [] \<or> exponent_part ex"
    unfolding decimal_notation_def unsigned_decimal_def by blast
  have s: "\<forall>x\<in>set sg. x = CHR ''+'' \<or> x = CHR ''-''"
    using t(2) by (auto simp add: is_sign_def)
  have m: "\<forall>x\<in>set m. is_digit x \<or> x = CHR ''.''"
    using t(3) by (rule mantissa_chars)
  have e: "\<forall>x\<in>set ex. is_digit x \<or> x = CHR ''+'' \<or> x = CHR ''-'' \<or> is_exp_char x"
  proof (cases "ex = []")
    case True
    then show ?thesis by simp
  next
    case False
    then obtain e sg' ds where "ex = e # sg' @ ds" "is_exp_char e" "is_sign sg'" "list_all is_digit ds"
      using t(4) unfolding exponent_part_def by blast
    then show ?thesis
      by (auto simp add: is_sign_def list_all_iff)
  qed
  from assms(2) have "c \<in> set sg \<or> c \<in> set m \<or> c \<in> set ex"
    by (simp add: t(1))
  then show ?thesis
    using s m e by blast
qed

lemma radix_prefix_not_decimal:
  assumes "radix_of_prefix t = Some base"
  shows "\<not> decimal_notation t" and "\<not> infinity_literal t"
proof -
  from assms obtain p ds where t: "t = CHR ''0'' # p # ds"
    and p: "p \<in> {CHR ''x'', CHR ''X'', CHR ''o'', CHR ''O'', CHR ''b'', CHR ''B''}"
    unfolding radix_of_prefix_Some by blast
  have "\<not> (is_digit p \<or> p = CHR ''.'' \<or> p = CHR ''+'' \<or> p = CHR ''-'' \<or> is_exp_char p)"
    using p by (auto simp add: is_digit_def is_exp_char_def)
  moreover have "p \<in> set t" by (simp add: t)
  ultimately show "\<not> decimal_notation t"
    using decimal_chars[of t p] by blast
  show "\<not> infinity_literal t"
    by (auto simp add: infinity_literal_def is_sign_def t)
qed

lemma radix_literal_iff:
  assumes "radix_of_prefix t = Some base"
  shows "radix_literal t \<longleftrightarrow> parse_digits base (drop 2 t) \<noteq> None"
proof -
  from assms obtain p ds where t: "t = CHR ''0'' # p # ds"
    and p: "(p = CHR ''x'' \<or> p = CHR ''X'') \<and> base = 16 \<or>
         (p = CHR ''o'' \<or> p = CHR ''O'') \<and> base = 8 \<or>
         (p = CHR ''b'' \<or> p = CHR ''B'') \<and> base = 2"
    unfolding radix_of_prefix_Some by blast
  have r: "radix_literal t \<longleftrightarrow> ds \<noteq> [] \<and>
        (((p = CHR ''x'' \<or> p = CHR ''X'') \<and> list_all is_hex_digit ds) \<or>
         ((p = CHR ''o'' \<or> p = CHR ''O'') \<and> list_all is_octal_digit ds) \<or>
         ((p = CHR ''b'' \<or> p = CHR ''B'') \<and> list_all is_binary_digit ds))"
    by (simp add: radix_literal_def t)
  have d: "drop 2 t = ds" by (simp add: t)
  from p consider (hex) "p = CHR ''x'' \<or> p = CHR ''X''" "base = 16"
    | (oct) "p = CHR ''o'' \<or> p = CHR ''O''" "base = 8"
    | (bin) "p = CHR ''b'' \<or> p = CHR ''B''" "base = 2"
    by blast
  then show ?thesis
  proof cases
    case hex
    then show ?thesis
      unfolding r d parse_digits_radix by (auto simp add: digit_of_hex)
  next
    case oct
    then show ?thesis
      unfolding r d parse_digits_radix by (auto simp add: digit_of_octal)
  next
    case bin
    then show ?thesis
      unfolding r d parse_digits_radix by (auto simp add: digit_of_binary)
  qed
qed

lemma radix_literal_prefix:
  "radix_literal t \<Longrightarrow> radix_of_prefix t \<noteq> None"
  by (auto simp add: radix_literal_def radix_of_prefix_def)

lemma unsigned_decimal_hd:
  assumes "unsigned_decimal u"
  shows "u \<noteq> []" and "is_digit (hd u) \<or> hd u = CHR ''.''"
proof -
  from assms obtain m ex where u: "u = m @ ex" "mantissa m"
    unfolding unsigned_decimal_def by blast
  have m: "m \<noteq> []" "\<forall>c\<in>set m. is_digit c \<or> c = CHR ''.''"
    using mantissa_chars[OF u(2)] by simp_all
  show "u \<noteq> []" using u(1) m(1) by simp
  have "hd u = hd m" using u(1) m(1) by simp
  moreover have "hd m \<in> set m" using m(1) by simp
  ultimately show "is_digit (hd u) \<or> hd u = CHR ''.''"
    using m(2) by simp
qed

lemma decimal_notation_signed:
  assumes "c = CHR ''+'' \<or> c = CHR ''-''"
  shows "decimal_notation (c # u) \<longleftrightarrow> unsigned_decimal u"
proof
  assume "decimal_notation (c # u)"
  then obtain sg v where d: "c # u = sg @ v" "is_sign sg" "unsigned_decimal v"
    unfolding decimal_notation_def by blast
  have "sg \<noteq> []"
  proof
    assume "sg = []"
    then have "hd v = c" using d(1) by (metis append_Nil list.sel(1))
    then show False
      using unsigned_decimal_hd(2)[OF d(3)] assms by (auto simp add: is_digit_def)
  qed
  then have "sg = [c]" "v = u"
    using d(1,2) by (auto simp add: is_sign_def)
  then show "unsigned_decimal u" using d(3) by simp
next
  assume "unsigned_decimal u"
  moreover have "is_sign [c]" using assms by (auto simp add: is_sign_def)
  ultimately have "c # u = [c] @ u \<and> is_sign [c] \<and> unsigned_decimal u" by simp
  then show "decimal_notation (c # u)"
    unfolding decimal_notation_def by (intro exI[of _ "[c]"] exI[of _ u])
qed

lemma decimal_notation_unsigned:
  assumes "t \<noteq> []" "hd t \<noteq> CHR ''+''" "hd t \<noteq> CHR ''-''"
  shows "decimal_notation t \<longleftrightarrow> unsigned_decimal t"
proof
  assume "decimal_notation t"
  then obtain sg v where d: "t = sg @ v" "is_sign sg" "unsigned_decimal v"
    unfolding decimal_notation_def by blast
  have "sg = []"
    using d(1,2) assms by (auto simp add: is_sign_def)
  then show "unsigned_decimal t" using d by simp
next
  assume "unsigned_decimal t"
  then have "t = [] @ t \<and> is_sign [] \<and> unsigned_decimal t"
    by (simp add: is_sign_def)
  then show "decimal_notation t"
    unfolding decimal_notation_def by (intro exI[of _ "[]"] exI[of _ t])
qed

lemma infinity_literal_signed:
  assumes "c = CHR ''+'' \<or> c = CHR ''-''"
  shows "infinity_literal (c # u) \<longleftrightarrow> u = ''Infinity''"
  using assms by (auto simp add: infinity_literal_def is_sign_def)

lemma infinity_literal_unsigned:
  assumes "t \<noteq> []" "hd t \<noteq> CHR ''+''" "hd t \<noteq> CHR ''-''"
  shows "infinity_literal t \<longleftrightarrow> t = ''Infinity''"
  using assms by (auto simp add: infinity_literal_def is_sign_def)

lemma num_of_int_not_NaN:
  "num_of_int n \<noteq> NaN"
  by (simp add: num_of_int_def round_double_not_NaN)

text \<open>A string is read as a number exactly when its trimmed text is empty or a numeric literal.\<close>

lemma StringToNumber_NaN_iff:
  "StringToNumber s \<noteq> NaN \<longleftrightarrow> trim s = [] \<or> js_numeric_literal (trim s)"
proof (cases "trim s = []")
  case True
  then show ?thesis by (simp add: StringToNumber_def)
next
  case False
  define t where "t = trim s"
  have ne: "t \<noteq> []" using False by (simp add: t_def)
  show ?thesis
  proof (cases "radix_of_prefix t")
    case (Some base)
    have "StringToNumber s \<noteq> NaN \<longleftrightarrow> parse_digits base (drop 2 t) \<noteq> None"
      using ne Some
      by (cases "parse_digits base (drop 2 t)")
        (simp_all add: StringToNumber_def t_def[symmetric] num_of_int_not_NaN)
    then show ?thesis
      using radix_prefix_not_decimal[OF Some] radix_literal_iff[OF Some] False
      by (simp add: js_numeric_literal_def t_def[symmetric])
  next
    case None
    then have nr: "\<not> radix_literal t"
      using radix_literal_prefix by blast
    obtain c u where cu: "t = c # u"
      using ne by (cases t) auto
    show ?thesis
    proof (cases "c = CHR ''+'' \<or> c = CHR ''-''")
      case True
      have "StringToNumber s = parse_signed_decimal (c = CHR ''-'') u"
        using True None cu by (auto simp add: StringToNumber_def t_def[symmetric])
      then have "StringToNumber s \<noteq> NaN \<longleftrightarrow> u = ''Infinity'' \<or> unsigned_decimal u"
        by (simp only: parse_signed_decimal_iff)
      then show ?thesis
        using nr False decimal_notation_signed[OF True, of u] infinity_literal_signed[OF True, of u]
        by (auto simp add: js_numeric_literal_def t_def[symmetric] cu)
    next
      case False
      then have h: "hd t \<noteq> CHR ''+''" "hd t \<noteq> CHR ''-''"
        using cu by simp_all
      have "StringToNumber s = parse_signed_decimal False t"
        using None ne h by (simp add: StringToNumber_def t_def[symmetric])
      then have "StringToNumber s \<noteq> NaN \<longleftrightarrow> t = ''Infinity'' \<or> unsigned_decimal t"
        by (simp only: parse_signed_decimal_iff)
      then show ?thesis
        using nr \<open>trim s \<noteq> []\<close> decimal_notation_unsigned[OF ne h] infinity_literal_unsigned[OF ne h]
        by (auto simp add: js_numeric_literal_def t_def[symmetric])
    qed
  qed
qed

section \<open>Numbers that need no rounding\<close>

lemma bit_length_mult_pow2:
  assumes "0 < m"
  shows "bit_length (m * 2 ^ e) = bit_length m + e"
proof -
  obtain k where k: "bit_length m = Suc k"
    using bit_length_pos[OF assms] by (cases "bit_length m") auto
  have b: "2 ^ k \<le> m" "m < 2 ^ Suc k"
    using bit_length_bounds[OF assms] by (simp_all add: k)
  have "(2::int) ^ (k + e) = 2 ^ k * 2 ^ e"
    by (rule power_add)
  also have "\<dots> \<le> m * 2 ^ e"
    using b(1) by (intro mult_right_mono) simp_all
  finally have lo: "2 ^ (k + e) \<le> m * 2 ^ e" .
  have "m * 2 ^ e < 2 ^ Suc k * 2 ^ e"
    using b(2) by (intro mult_strict_right_mono) simp_all
  also have "(2::int) ^ Suc k * 2 ^ e = 2 ^ (Suc k + e)"
    by (rule power_add[symmetric])
  finally have hi: "m * 2 ^ e < 2 ^ Suc (k + e)"
    by simp
  have "bit_length (m * 2 ^ e) = Suc (k + e)"
    using lo hi by (rule bit_length_unique)
  then show ?thesis
    by (simp add: k)
qed

lemma bit_length_le:
  assumes "m < 2 ^ n"
  shows "bit_length m \<le> n"
proof (cases "0 < m")
  case False
  then show ?thesis by (simp add: bit_length_nonpos)
next
  case True
  from bit_length_bounds[OF True] assms
  have "(2::int) ^ (bit_length m - 1) < 2 ^ n" by linarith
  then have "bit_length m - 1 < n"
    by (simp only: power_strict_increasing_iff)
  then show ?thesis
    using bit_length_pos[OF True] by linarith
qed

lemma round_mag_exact:
  assumes "0 \<le> m" "m < 2 ^ 53"
  shows "round_mag (m * 2 ^ e) 1 = m * 2 ^ e"
proof (cases "m = 0")
  case True
  then show ?thesis by (simp add: round_mag_zero)
next
  case False
  then have pos: "0 < m" using assms(1) by simp
  define sh where "sh = bit_length (m * 2 ^ e) - 53"
  have "bit_length m \<le> 53"
    using assms(2) by (rule bit_length_le)
  then have "sh \<le> e"
    by (simp add: sh_def bit_length_mult_pow2[OF pos])
  then have "(2::int) ^ sh dvd 2 ^ e"
    by (simp add: le_imp_power_dvd)
  then have d: "(2::int) ^ sh dvd m * 2 ^ e"
    by (rule dvd_mult)
  then have "round_half_even (m * 2 ^ e) (2 ^ sh) = m * 2 ^ e div 2 ^ sh"
    by (intro round_half_even_divides) simp_all
  then have "round_half_even (m * 2 ^ e) (2 ^ sh) * 2 ^ sh = m * 2 ^ e"
    using d by simp
  then show ?thesis
    by (simp add: round_mag_def Let_def sh_def)
qed

text \<open>An integer of at most 53 bits times a power of two, below the overflow threshold, is a double.\<close>

lemma round_double_exact:
  assumes "0 \<le> m" "m < 2 ^ 53" "m * 2 ^ e < overflow_threshold"
  shows "round_double (m * 2 ^ e) 1 = Fin (m * 2 ^ e)"
    and "round_double (- (m * 2 ^ e)) 1 = Fin (- (m * 2 ^ e))"
proof -
  have n: "0 \<le> m * 2 ^ e"
    using assms(1) by simp
  then have a: "\<bar>m * 2 ^ e\<bar> = m * 2 ^ e" "\<bar>- (m * 2 ^ e)\<bar> = m * 2 ^ e"
    by simp_all
  have r: "round_mag (m * 2 ^ e) 1 = m * 2 ^ e"
    using assms(1,2) by (rule round_mag_exact)
  show "round_double (m * 2 ^ e) 1 = Fin (m * 2 ^ e)"
    unfolding round_double_def Let_def a r
    using assms(3) n by simp
  show "round_double (- (m * 2 ^ e)) 1 = Fin (- (m * 2 ^ e))"
    unfolding round_double_def Let_def a r
    using assms(3) n by simp
qed

lemma below_overflow_threshold:
  assumes "m < 2 ^ 53" "53 + e < 2098"
  shows "m * 2 ^ e < overflow_threshold"
proof -
  have "m * 2 ^ e < 2 ^ 53 * 2 ^ e"
    using assms(1) by (intro mult_strict_right_mono) simp_all
  also have "(2::int) ^ 53 * 2 ^ e = 2 ^ (53 + e)"
    by (rule power_add[symmetric])
  also have "(2::int) ^ (53 + e) < 2 ^ 2098"
    using assms(2) by (intro power_strict_increasing) simp_all
  finally show ?thesis
    unfolding overflow_threshold_def .
qed

lemma num_of_int_exact:
  assumes "0 \<le> n" "n < 2 ^ 53"
  shows "num_of_int n = Fin (n * 2 ^ 1074)"
proof -
  have "n * 2 ^ 1074 < overflow_threshold"
    using assms(2) by (rule below_overflow_threshold) simp
  then show ?thesis
    unfolding num_of_int_def unit_exp_def
    using assms by (intro round_double_exact)
qed

section \<open>The type normalizer\<close>

lemma set_dropWhile_keeps:
  "c \<in> set xs \<Longrightarrow> \<not> P c \<Longrightarrow> c \<in> set (dropWhile P xs)"
  by (induction xs) auto

lemma set_trim_keeps:
  assumes "c \<in> set s" "\<not> is_space c"
  shows "c \<in> set (trim s)"
proof -
  have "c \<in> set (rev (dropWhile is_space s))"
    using assms by (simp add: set_dropWhile_keeps)
  then have "c \<in> set (dropWhile is_space (rev (dropWhile is_space s)))"
    using assms(2) by (rule set_dropWhile_keeps)
  then show ?thesis
    by (simp add: trim_def)
qed

lemma trim_Nil:
  "trim [] = []"
  by (simp add: trim_def)

lemma hex_digit_chars:
  "is_hex_digit c \<Longrightarrow> is_digit c \<or> is_letter c"
  by (auto simp add: is_hex_digit_def is_letter_def)

lemma octal_digit_chars:
  "is_octal_digit c \<Longrightarrow> is_digit c"
  by (simp add: is_octal_digit_def is_digit_def)

lemma binary_digit_chars:
  "is_binary_digit c \<Longrightarrow> is_digit c"
  unfolding is_binary_digit_def by (erule disjE) (simp_all add: is_digit_def)

lemma Infinity_chars:
  "\<forall>x\<in>set ''Infinity''. is_letter x"
  by (simp add: is_letter_def)

lemma sign_chars:
  "is_sign sg \<Longrightarrow> \<forall>x\<in>set sg. x = CHR ''+'' \<or> x = CHR ''-''"
  unfolding is_sign_def by (elim disjE) simp_all

lemma exp_char_letter:
  "is_exp_char c \<Longrightarrow> is_letter c"
  unfolding is_exp_char_def by (erule disjE) (simp_all add: is_letter_def)

lemma radix_prefix_letter:
  "p \<in> {CHR ''x'', CHR ''X'', CHR ''o'', CHR ''O'', CHR ''b'', CHR ''B''} \<Longrightarrow> is_letter p"
  by (elim insertE emptyE) (simp_all add: is_letter_def)

lemma numeric_literal_chars:
  assumes "js_numeric_literal t" "c \<in> set t"
  shows "is_digit c \<or> is_letter c \<or> c = CHR ''.'' \<or> c = CHR ''+'' \<or> c = CHR ''-''"
proof -
  from assms(1) consider (dec) "decimal_notation t" | (inf) "infinity_literal t" | (rad) "radix_literal t"
    unfolding js_numeric_literal_def by blast
  then show ?thesis
  proof cases
    case dec
    from decimal_chars[OF dec assms(2)] exp_char_letter[of c]
    show ?thesis by blast
  next
    case inf
    then obtain sg where t: "t = sg @ ''Infinity''" and sg: "is_sign sg"
      unfolding infinity_literal_def by blast
    from assms(2) have "c \<in> set sg \<or> c \<in> set ''Infinity''"
      unfolding t by (simp only: set_append Un_iff)
    then show ?thesis
      using sign_chars[OF sg] Infinity_chars by blast
  next
    case rad
    then obtain p ds where t: "t = CHR ''0'' # p # ds"
      and p: "p \<in> {CHR ''x'', CHR ''X'', CHR ''o'', CHR ''O'', CHR ''b'', CHR ''B''}"
      and ds: "list_all is_hex_digit ds \<or> list_all is_octal_digit ds \<or> list_all is_binary_digit ds"
      unfolding radix_literal_def by blast
    have lp: "is_letter p"
      using p by (rule radix_prefix_letter)
    have z: "is_digit (CHR ''0'')"
      by (simp add: is_digit_def)
    have d: "\<forall>x\<in>set ds. is_digit x \<or> is_letter x"
      using ds hex_digit_chars octal_digit_chars binary_digit_chars
      unfolding list_all_iff by blast
    from assms(2) have "c = CHR ''0'' \<or> c = p \<or> c \<in> set ds"
      unfolding t by simp
    then show ?thesis
      using lp z d by blast
  qed
qed
lemma symbol_not_number:
  assumes "c \<in> set s" "is_symbol c"
  shows "StringToNumber s = NaN"
proof -
  have c: "c \<in> set (trim s)"
    using assms by (intro set_trim_keeps) (simp_all add: is_symbol_def)
  then have "trim s \<noteq> []"
    by auto
  moreover have "\<not> js_numeric_literal (trim s)"
    using numeric_literal_chars[of "trim s" c] c assms(2) by (auto simp add: is_symbol_def)
  ultimately show ?thesis
    using StringToNumber_NaN_iff[of s] by simp
qed

text \<open>
  Claim C5, amended. The type normalizer replaces a string by the Number it is read as
  exactly when the trimmed string is not empty and is a numeric literal of JavaScript: a
  literal in decimal notation, an optionally signed \<open>Infinity\<close>, or an unsigned integer with
  the prefix \<open>0x\<close>, \<open>0o\<close> or \<open>0b\<close>. Every other string and every value that is not a string
  pass through unchanged; so does every string with a symbol in it, such as a currency
  symbol, a comma or a percent sign. The coercion of the CSV parser gives the same result
  on every field that is empty or has a character other than white space.
\<close>

theorem type_normalizer_characterisation:
  "normalize_value (Str s) =
     (if trim s \<noteq> [] \<and> js_numeric_literal (trim s) then Num (StringToNumber s) else Str s) \<and>
   ((\<forall>t. v \<noteq> Str t) \<longrightarrow> normalize_value v = v) \<and>
   (c \<in> set s \<and> is_symbol c \<longrightarrow> normalize_value (Str s) = Str s) \<and>
   (trim s \<noteq> [] \<longrightarrow> csv_coerce s = normalize_value (Str s)) \<and>
   csv_coerce [] = normalize_value (Str [])"
proof (intro conjI impI)
  show "normalize_value (Str s) =
     (if trim s \<noteq> [] \<and> js_numeric_literal (trim s) then Num (StringToNumber s) else Str s)"
    using StringToNumber_NaN_iff[of s] by (auto simp add: normalize_value_def isNaN_def)
next
  assume "\<forall>t. v \<noteq> Str t"
  then show "normalize_value v = v"
    by (cases v) (simp_all add: normalize_value_def)
next
  assume "c \<in> set s \<and> is_symbol c"
  then have "StringToNumber s = NaN"
    using symbol_not_number by blast
  then show "normalize_value (Str s) = Str s"
    by (simp add: normalize_value_def isNaN_def)
next
  assume "trim s \<noteq> []"
  then have "s \<noteq> []"
    using trim_Nil by auto
  then show "csv_coerce s = normalize_value (Str s)"
    using \<open>trim s \<noteq> []\<close> by (simp add: csv_coerce_def normalize_value_def)
next
  show "csv_coerce [] = normalize_value (Str [])"
    by (simp add: csv_coerce_def normalize_value_def trim_Nil)
qed

lemma trim_price:
  "trim ''$12'' = ''$12''"
  by code_simp

lemma dollar_is_symbol:
  "is_symbol (CHR ''$'')"
  by (simp add: is_symbol_def is_digit_def is_letter_def is_space_def)

theorem type_normalizer_witness:
  "(\<forall>t. Bool True \<noteq> Str t) \<and> normalize_value (Bool True) = Bool True \<and>
   CHR ''$'' \<in> set ''$12'' \<and> is_symbol (CHR ''$'') \<and> normalize_value (Str ''$12'') = Str ''$12'' \<and>
   trim ''$12'' \<noteq> [] \<and> csv_coerce ''$12'' = Str ''$12''"
proof -
  note t = type_normalizer_characterisation[of "''$12''" "Bool True" "CHR ''$''"]
  have a: "\<forall>t. Bool True \<noteq> Str t"
    by simp
  have b: "CHR ''$'' \<in> set ''$12'' \<and> is_symbol (CHR ''$'')"
    by (simp add: dollar_is_symbol)
  have c: "trim ''$12'' \<noteq> []"
    by (simp add: trim_price)
  from t a have 1: "normalize_value (Bool True) = Bool True"
    by blast
  from t b have 2: "normalize_value (Str ''$12'') = Str ''$12''"
    by blast
  from t c have "csv_coerce ''$12'' = normalize_value (Str ''$12'')"
    by blast
  then have 3: "csv_coerce ''$12'' = Str ''$12''"
    by (simp only: 2)
  show ?thesis
    using a b c 1 2 3 by blast
qed
lemma trim_hex_example:
  "trim ''0x1F'' = ''0x1F''"
  by code_simp

lemma radix_hex_example:
  "radix_of_prefix ''0x1F'' = Some 16"
  by code_simp

lemma parse_hex_example:
  "parse_digits 16 ''1F'' = Some 31"
  by code_simp

lemma StringToNumber_hex_example:
  "StringToNumber ''0x1F'' = Fin (31 * 2 ^ 1074)"
proof -
  have "StringToNumber ''0x1F'' = num_of_int 31"
    by (simp add: StringToNumber_def trim_hex_example radix_hex_example parse_hex_example)
  also have "\<dots> = Fin (31 * 2 ^ 1074)"
    by (rule num_of_int_exact) simp_all
  finally show ?thesis .
qed

lemma hex_not_decimal:
  "\<not> decimal_notation ''0x1F''"
proof
  assume "decimal_notation ''0x1F''"
  then have "is_digit (CHR ''x'') \<or> CHR ''x'' = CHR ''.'' \<or> CHR ''x'' = CHR ''+'' \<or>
      CHR ''x'' = CHR ''-'' \<or> is_exp_char (CHR ''x'')"
    by (rule decimal_chars) simp
  then show False
    by (simp add: is_digit_def is_exp_char_def)
qed

text \<open>
  Claim C5 as stated fails on the string \<open>0x1F\<close>: it is not a literal in decimal
  notation, and the normalizer replaces it by the Number 31 (of which 31 times \<open>2\<^sup>1\<^sup>0\<^sup>7\<^sup>4\<close>
  is the count of units).
\<close>

theorem type_normalizer_counterexample:
  "\<not> decimal_notation ''0x1F'' \<and> normalize_value (Str ''0x1F'') = Num (Fin (31 * 2 ^ 1074))"
proof
  show "\<not> decimal_notation ''0x1F''"
    by (rule hex_not_decimal)
  have "StringToNumber ''0x1F'' \<noteq> NaN"
    unfolding StringToNumber_hex_example by (rule jsnum.distinct)
  then show "normalize_value (Str ''0x1F'') = Num (Fin (31 * 2 ^ 1074))"
    unfolding normalize_value_def jsval.case isNaN_def trim_hex_example
    by (simp only: StringToNumber_hex_example) simp
qed

section \<open>The summary statistics\<close>

lemma js_le_refl:
  "a \<noteq> NaN \<Longrightarrow> js_le a a"
  by (simp add: js_le_def)

lemma js_le_trans:
  "a \<noteq> NaN \<Longrightarrow> b \<noteq> NaN \<Longrightarrow> c \<noteq> NaN \<Longrightarrow> js_le a b \<Longrightarrow> js_le b c \<Longrightarrow> js_le a c"
  by (simp add: js_le_desc_rank)

lemma js_less_not_le:
  "a \<noteq> NaN \<Longrightarrow> b \<noteq> NaN \<Longrightarrow> js_less a b \<longleftrightarrow> \<not> js_le b a"
  by (cases a; cases b) (auto simp add: js_le_def)

lemma js_le_total:
  "a \<noteq> NaN \<Longrightarrow> b \<noteq> NaN \<Longrightarrow> js_le a b \<or> js_le b a"
  by (auto simp add: js_le_desc_rank)

lemma js_min2_properties:
  assumes "a \<noteq> NaN" "b \<noteq> NaN"
  shows "js_min2 a b \<noteq> NaN" "js_min2 a b = a \<or> js_min2 a b = b"
    "js_le (js_min2 a b) a" "js_le (js_min2 a b) b"
  using assms js_le_total[of a b]
  by (auto simp add: js_min2_def js_less_not_le js_le_refl)

lemma js_max2_properties:
  assumes "a \<noteq> NaN" "b \<noteq> NaN"
  shows "js_max2 a b \<noteq> NaN" "js_max2 a b = a \<or> js_max2 a b = b"
    "js_le a (js_max2 a b)" "js_le b (js_max2 a b)"
  using assms js_le_total[of a b]
  by (auto simp add: js_max2_def js_less_not_le js_le_refl)

lemma foldl_js_min2:
  assumes "acc \<noteq> NaN" "\<forall>v\<in>set vs. v \<noteq> NaN"
  shows "foldl js_min2 acc vs \<noteq> NaN \<and>
         (foldl js_min2 acc vs = acc \<or> foldl js_min2 acc vs \<in> set vs) \<and>
         js_le (foldl js_min2 acc vs) acc \<and>
         (\<forall>v\<in>set vs. js_le (foldl js_min2 acc vs) v)"
  using assms
proof (induction vs arbitrary: acc)
  case Nil
  then show ?case by (simp add: js_le_refl)
next
  case (Cons a vs)
  let ?m = "js_min2 acc a"
  let ?r = "foldl js_min2 ?m vs"
  have a: "a \<noteq> NaN" and vs: "\<forall>v\<in>set vs. v \<noteq> NaN"
    using Cons.prems(2) by simp_all
  note m = js_min2_properties[OF Cons.prems(1) a]
  have ih: "?r \<noteq> NaN" "?r = ?m \<or> ?r \<in> set vs" "js_le ?r ?m" "\<forall>v\<in>set vs. js_le ?r v"
    using Cons.IH[OF m(1) vs] by simp_all
  have 1: "js_le ?r acc"
    using js_le_trans[OF ih(1) m(1) Cons.prems(1) ih(3) m(3)] .
  have 2: "js_le ?r a"
    using js_le_trans[OF ih(1) m(1) a ih(3) m(4)] .
  have 3: "?r = acc \<or> ?r \<in> set (a # vs)"
    using ih(2) m(2) by auto
  show ?case
    using ih(1,4) 1 2 3 by simp
qed

lemma foldl_js_max2:
  assumes "acc \<noteq> NaN" "\<forall>v\<in>set vs. v \<noteq> NaN"
  shows "foldl js_max2 acc vs \<noteq> NaN \<and>
         (foldl js_max2 acc vs = acc \<or> foldl js_max2 acc vs \<in> set vs) \<and>
         js_le acc (foldl js_max2 acc vs) \<and>
         (\<forall>v\<in>set vs. js_le v (foldl js_max2 acc vs))"
  using assms
proof (induction vs arbitrary: acc)
  case Nil
  then show ?case by (simp add: js_le_refl)
next
  case (Cons a vs)
  let ?m = "js_max2 acc a"
  let ?r = "foldl js_max2 ?m vs"
  have a: "a \<noteq> NaN" and vs: "\<forall>v\<in>set vs. v \<noteq> NaN"
    using Cons.prems(2) by simp_all
  note m = js_max2_properties[OF Cons.prems(1) a]
  have ih: "?r \<noteq> NaN" "?r = ?m \<or> ?r \<in> set vs" "js_le ?m ?r" "\<forall>v\<in>set vs. js_le v ?r"
    using Cons.IH[OF m(1) vs] by simp_all
  have 1: "js_le acc ?r"
    using js_le_trans[OF Cons.prems(1) m(1) ih(1) m(3) ih(3)] .
  have 2: "js_le a ?r"
    using js_le_trans[OF a m(1) ih(1) m(4) ih(3)] .
  have 3: "?r = acc \<or> ?r \<in> set (a # vs)"
    using ih(2) m(2) by auto
  show ?case
    using ih(1,4) 1 2 3 by simp
qed

lemma js_le_PosInf:
  "v \<noteq> NaN \<Longrightarrow> js_le PosInf v \<Longrightarrow> v = PosInf"
  by (cases v) (simp_all add: js_le_def)

lemma js_le_NegInf:
  "v \<noteq> NaN \<Longrightarrow> js_le v NegInf \<Longrightarrow> v = NegInf"
  by (cases v) (simp_all add: js_le_def)

lemma Math_min_least:
  assumes "vs \<noteq> []" "\<forall>v\<in>set vs. v \<noteq> NaN"
  shows "Math_min vs \<in> set vs" and "\<forall>v\<in>set vs. js_le (Math_min vs) v"
proof -
  have p: "foldl js_min2 PosInf vs = PosInf \<or> foldl js_min2 PosInf vs \<in> set vs"
    "\<forall>v\<in>set vs. js_le (foldl js_min2 PosInf vs) v"
    using foldl_js_min2[OF _ assms(2), of PosInf] by simp_all
  then show "\<forall>v\<in>set vs. js_le (Math_min vs) v"
    by (simp add: Math_min_def)
  obtain a where a: "a \<in> set vs"
    using assms(1) by (cases vs) auto
  show "Math_min vs \<in> set vs"
  proof (cases "foldl js_min2 PosInf vs = PosInf")
    case True
    then have "js_le PosInf a" using p(2) a by auto
    then have "a = PosInf" using assms(2) a js_le_PosInf by blast
    then show ?thesis using a True by (simp add: Math_min_def)
  next
    case False
    then show ?thesis using p(1) by (simp add: Math_min_def)
  qed
qed

lemma Math_max_greatest:
  assumes "vs \<noteq> []" "\<forall>v\<in>set vs. v \<noteq> NaN"
  shows "Math_max vs \<in> set vs" and "\<forall>v\<in>set vs. js_le v (Math_max vs)"
proof -
  have p: "foldl js_max2 NegInf vs = NegInf \<or> foldl js_max2 NegInf vs \<in> set vs"
    "\<forall>v\<in>set vs. js_le v (foldl js_max2 NegInf vs)"
    using foldl_js_max2[OF _ assms(2), of NegInf] by simp_all
  then show "\<forall>v\<in>set vs. js_le v (Math_max vs)"
    by (simp add: Math_max_def)
  obtain a where a: "a \<in> set vs"
    using assms(1) by (cases vs) auto
  show "Math_max vs \<in> set vs"
  proof (cases "foldl js_max2 NegInf vs = NegInf")
    case True
    then have "js_le a NegInf" using p(2) a by auto
    then have "a = NegInf" using assms(2) a js_le_NegInf by blast
    then show ?thesis using a True by (simp add: Math_max_def)
  next
    case False
    then show ?thesis using p(1) by (simp add: Math_max_def)
  qed
qed

lemma y_values_not_NaN:
  "\<forall>v\<in>set (y_values rows y). v \<noteq> NaN"
  by (auto simp add: y_values_def numeric_rows_valid)

lemma numericValues_numeric_rows:
  "filter is_valid_number (map (\<lambda>d. obj_get d y) rows) = map (\<lambda>d. obj_get d y) (numeric_rows rows y)"
  by (simp add: numeric_rows_def filter_map comp_def)

lemma foldl_js_add_ToNumber:
  "foldl (\<lambda>a b. js_add a (ToNumber b)) acc vs = foldl js_add acc (map ToNumber vs)"
  by (induction vs arbitrary: acc) simp_all

text \<open>The statistics, written with the numbers of the column.\<close>

lemma yAxisStats_y_values:
  assumes "y \<noteq> []"
  shows "yAxisStats rows y =
           (if y_values rows y = [] then None
            else Some \<lparr>min_val = Math_min (y_values rows y),
                       max_val = Math_max (y_values rows y),
                       avg = js_div_length (foldl js_add (Fin 0) (y_values rows y))
                               (length (y_values rows y)),
                       count = length (y_values rows y)\<rparr>)"
proof -
  have m: "map (ToNumber \<circ> (\<lambda>d. obj_get d y)) (numeric_rows rows y) = y_values rows y"
    by (simp add: y_values_def y_value_def comp_def)
  have l: "length (y_values rows y) = length (numeric_rows rows y)"
    by (simp add: y_values_def)
  have e: "y_values rows y = [] \<longleftrightarrow> numeric_rows rows y = []"
    by (simp add: y_values_def)
  show ?thesis
  proof (cases "rows = []")
    case True
    then show ?thesis
      by (simp add: yAxisStats_def y_values_def numeric_rows_def)
  next
    case False
    then show ?thesis
      using assms
      by (simp add: yAxisStats_def Let_def numericValues_numeric_rows foldl_js_add_ToNumber m l e)
  qed
qed

section \<open>Rounding is monotone\<close>

lemma div_times_le:
  fixes a d :: int
  assumes "0 < d"
  shows "a div d * d \<le> a"
proof -
  have "a = a div d * d + a mod d" by simp
  moreover have "0 \<le> a mod d" using assms by simp
  ultimately show ?thesis by linarith
qed

lemma le_div_if:
  fixes a d k :: int
  assumes "0 < d" "k * d \<le> a"
  shows "k \<le> a div d"
proof -
  have "(k * d) div d \<le> a div d"
    using assms(2) by (rule zdiv_mono1) (rule assms(1))
  then show ?thesis using assms(1) by simp
qed

lemma div_less_if:
  fixes a d k :: int
  assumes "0 < d" "a < k * d"
  shows "a div d < k"
proof (rule ccontr)
  assume "\<not> a div d < k"
  then have "k \<le> a div d" by simp
  then have "k * d \<le> a div d * d"
    using assms(1) by (intro mult_right_mono) simp_all
  also have "\<dots> \<le> a"
    using assms(1) by (rule div_times_le)
  finally show False using assms(2) by simp
qed

lemma round_half_even_mono:
  assumes "0 < D" "a \<le> a'"
  shows "round_half_even a D \<le> round_half_even a' D"
proof -
  have q: "a div D \<le> a' div D"
    using assms(2,1) by (rule zdiv_mono1)
  have r: "0 \<le> a mod D" "a mod D < D" "0 \<le> a' mod D" "a' mod D < D"
    using assms(1) by simp_all
  show ?thesis
  proof (cases "a div D = a' div D")
    case True
    have "a = a div D * D + a mod D" "a' = a' div D * D + a' mod D"
      by simp_all
    then have "a mod D \<le> a' mod D"
      using assms(2) True by (metis add_le_cancel_left)
    then show ?thesis
      using True by (auto simp add: round_half_even_def Let_def)
  next
    case False
    then have "a div D + 1 \<le> a' div D"
      using q by simp
    moreover have "round_half_even a D \<le> a div D + 1"
      by (simp add: round_half_even_def Let_def)
    moreover have "a' div D \<le> round_half_even a' D"
      by (simp add: round_half_even_def Let_def)
    ultimately show ?thesis by linarith
  qed
qed

lemma round_half_even_scale:
  assumes "0 < c"
  shows "round_half_even (a * c) (D * c) = round_half_even a D"
proof -
  have d: "(a * c) div (D * c) = a div D"
    using assms by simp
  have m: "(a * c) mod (D * c) = (a mod D) * c"
    using assms by simp
  have 1: "2 * (a mod D * c) < D * c \<longleftrightarrow> 2 * (a mod D) < D"
  proof -
    have "2 * (a mod D * c) = (2 * (a mod D)) * c" by simp
    then show ?thesis using assms by (simp only: mult_less_cancel_right_pos)
  qed
  have 2: "D * c < 2 * (a mod D * c) \<longleftrightarrow> D < 2 * (a mod D)"
  proof -
    have "2 * (a mod D * c) = (2 * (a mod D)) * c" by simp
    then show ?thesis using assms by (simp only: mult_less_cancel_right_pos)
  qed
  show ?thesis
    unfolding round_half_even_def Let_def d m 1 2 ..
qed

lemma bit_length_mono:
  assumes "q \<le> q'"
  shows "bit_length q \<le> bit_length q'"
proof (cases "0 < q")
  case False
  then show ?thesis by (simp add: bit_length_nonpos)
next
  case True
  then have p': "0 < q'" using assms by simp
  have "2 ^ (bit_length q - 1) \<le> q"
    using bit_length_bounds[OF True] by simp
  also have "q \<le> q'" by (rule assms)
  also have "q' < 2 ^ bit_length q'"
    using bit_length_bounds[OF p'] by simp
  finally have "bit_length q - 1 < bit_length q'"
    by (simp only: power_strict_increasing_iff)
  then show ?thesis
    using bit_length_pos[OF True] by linarith
qed

lemma bit_length_upper:
  assumes "0 \<le> q"
  shows "q < 2 ^ bit_length q"
proof (cases "0 < q")
  case True
  then show ?thesis using bit_length_bounds by simp
next
  case False
  then have "q = 0" using assms by simp
  then show ?thesis by simp
qed

lemma div_div_pow2:
  fixes a d :: int
  assumes "0 < d"
  shows "a div (d * 2 ^ sh) = a div d div 2 ^ sh"
  by (rule zdiv_zmult2_eq) simp

lemma round_mag_nonneg:
  assumes "0 \<le> a" "0 < d"
  shows "0 \<le> round_mag a d"
proof -
  define sh where "sh = bit_length (a div d) - 53"
  have D: "0 < d * 2 ^ sh" using assms(2) by simp
  have "0 \<le> a div (d * 2 ^ sh)"
    using assms(1) D by (simp add: pos_imp_zdiv_nonneg_iff)
  also have "\<dots> \<le> round_half_even a (d * 2 ^ sh)"
    by (simp add: round_half_even_def Let_def)
  finally show ?thesis
    by (simp add: round_mag_def Let_def sh_def)
qed

lemma round_mag_upper:
  assumes "0 \<le> a" "0 < d"
  shows "round_mag a d \<le> 2 ^ bit_length (a div d)"
proof -
  define q where "q = a div d"
  define L where "L = bit_length q"
  define sh where "sh = L - 53"
  have q0: "0 \<le> q"
    using assms by (simp add: q_def pos_imp_zdiv_nonneg_iff)
  have "q < 2 ^ L"
    unfolding L_def using q0 by (rule bit_length_upper)
  moreover have "(2::int) ^ L = 2 ^ (L - sh) * 2 ^ sh"
    by (simp add: sh_def power_add[symmetric])
  ultimately have "q < 2 ^ (L - sh) * 2 ^ sh" by simp
  then have "q div 2 ^ sh < 2 ^ (L - sh)"
    by (intro div_less_if) simp_all
  then have "q div 2 ^ sh + 1 \<le> 2 ^ (L - sh)" by simp
  moreover have "round_half_even a (d * 2 ^ sh) \<le> a div (d * 2 ^ sh) + 1"
    by (simp add: round_half_even_def Let_def)
  moreover have "a div (d * 2 ^ sh) = q div 2 ^ sh"
    unfolding q_def using assms(2) by (rule div_div_pow2)
  ultimately have "round_half_even a (d * 2 ^ sh) \<le> 2 ^ (L - sh)" by simp
  then have "round_half_even a (d * 2 ^ sh) * 2 ^ sh \<le> 2 ^ (L - sh) * 2 ^ sh"
    by (intro mult_right_mono) simp_all
  also have "\<dots> = 2 ^ L"
    by (simp add: sh_def power_add[symmetric])
  finally show ?thesis
    by (simp add: round_mag_def Let_def sh_def L_def q_def)
qed

lemma round_mag_lower:
  assumes "0 < d" "1 \<le> a div d"
  shows "2 ^ (bit_length (a div d) - 1) \<le> round_mag a d"
proof -
  define q where "q = a div d"
  define L where "L = bit_length q"
  define sh where "sh = L - 53"
  have qp: "0 < q" using assms(2) by (simp add: q_def)
  have L: "0 < L" "2 ^ (L - 1) \<le> q"
    using bit_length_bounds[OF qp] bit_length_pos[OF qp] by (simp_all add: L_def)
  have s: "sh \<le> L - 1"
    using L(1) by (simp add: sh_def)
  have "2 ^ (L - 1 - sh) \<le> q div 2 ^ sh"
    using L(2) s by (rule pow2_le_div)
  also have "q div 2 ^ sh = a div (d * 2 ^ sh)"
    unfolding q_def using assms(1) by (rule div_div_pow2[symmetric])
  also have "\<dots> \<le> round_half_even a (d * 2 ^ sh)"
    by (simp add: round_half_even_def Let_def)
  finally have m: "2 ^ (L - 1 - sh) * 2 ^ sh \<le> round_half_even a (d * 2 ^ sh) * 2 ^ sh"
    by (intro mult_right_mono) simp_all
  have e: "(2::int) ^ (L - 1 - sh) * 2 ^ sh = 2 ^ (L - 1)"
    using s by (simp add: power_add[symmetric])
  from m have "2 ^ (L - 1) \<le> round_half_even a (d * 2 ^ sh) * 2 ^ sh"
    unfolding e .
  then show ?thesis
    unfolding round_mag_def Let_def sh_def L_def q_def .
qed

lemma round_mag_mono:
  assumes "0 \<le> a" "a \<le> a'" "0 < d"
  shows "round_mag a d \<le> round_mag a' d"
proof -
  have q: "a div d \<le> a' div d"
    using assms(2,3) by (rule zdiv_mono1)
  then have L: "bit_length (a div d) \<le> bit_length (a' div d)"
    by (rule bit_length_mono)
  show ?thesis
  proof (cases "bit_length (a div d) = bit_length (a' div d)")
    case True
    define sh where "sh = bit_length (a' div d) - 53"
    have "round_half_even a (d * 2 ^ sh) \<le> round_half_even a' (d * 2 ^ sh)"
      using assms(2,3) by (intro round_half_even_mono) simp_all
    then have "round_half_even a (d * 2 ^ sh) * 2 ^ sh \<le> round_half_even a' (d * 2 ^ sh) * 2 ^ sh"
      by (intro mult_right_mono) simp_all
    then show ?thesis
      by (simp add: round_mag_def Let_def True sh_def)
  next
    case False
    then have lt: "bit_length (a div d) < bit_length (a' div d)"
      using L by simp
    have "\<not> a' div d \<le> 0"
    proof
      assume "a' div d \<le> 0"
      then have "bit_length (a' div d) = 0" by (rule bit_length_nonpos)
      then show False using lt by simp
    qed
    then have one: "1 \<le> a' div d" by simp
    have "round_mag a d \<le> 2 ^ bit_length (a div d)"
      using assms(1,3) by (rule round_mag_upper)
    also have "(2::int) ^ bit_length (a div d) \<le> 2 ^ (bit_length (a' div d) - 1)"
      using lt by (intro power_increasing) simp_all
    also have "\<dots> \<le> round_mag a' d"
      using assms(3) one by (rule round_mag_lower)
    finally show ?thesis .
  qed
qed

lemma round_double_mono:
  assumes "0 < d" "p \<le> p'"
  shows "js_le (round_double p d) (round_double p' d)"
proof -
  have n: "0 \<le> round_mag \<bar>p\<bar> d" "0 \<le> round_mag \<bar>p'\<bar> d"
    using assms(1) by (simp_all add: round_mag_nonneg)
  consider (neg) "p' < 0" | (mixed) "p < 0" "0 \<le> p'" | (pos) "0 \<le> p"
    by linarith
  then show ?thesis
  proof cases
    case neg
    then have "\<bar>p'\<bar> \<le> \<bar>p\<bar>" using assms(2) by simp
    then have "round_mag \<bar>p'\<bar> d \<le> round_mag \<bar>p\<bar> d"
      using assms(1) by (intro round_mag_mono) simp_all
    then show ?thesis
      using neg assms(2) by (auto simp add: round_double_def Let_def js_le_def)
  next
    case mixed
    then show ?thesis
      using n by (auto simp add: round_double_def Let_def js_le_def)
  next
    case pos
    then have "\<bar>p\<bar> \<le> \<bar>p'\<bar>" using assms(2) by simp
    then have "round_mag \<bar>p\<bar> d \<le> round_mag \<bar>p'\<bar> d"
      using assms(1) by (intro round_mag_mono) simp_all
    then show ?thesis
      using pos assms(2) by (auto simp add: round_double_def Let_def js_le_def)
  qed
qed

section \<open>The mean of exactly added doubles\<close>

lemma round_mag_scale:
  assumes "0 < c" "0 < d"
  shows "round_mag (a * c) (d * c) = round_mag a d"
proof -
  have q: "(a * c) div (d * c) = a div d"
    using assms(1) by simp
  have "round_half_even (a * c) (d * c * 2 ^ sh) = round_half_even a (d * 2 ^ sh)" for sh :: nat
  proof -
    have e: "d * c * 2 ^ sh = (d * 2 ^ sh) * c" by simp
    show ?thesis
      unfolding e using assms(1) by (rule round_half_even_scale)
  qed
  then show ?thesis
    unfolding round_mag_def Let_def q by simp
qed

lemma round_double_scale:
  assumes "0 < c" "0 < d"
  shows "round_double (p * c) (d * c) = round_double p d"
proof -
  have a: "\<bar>p * c\<bar> = \<bar>p\<bar> * c"
    using assms(1) by (simp add: abs_mult)
  have s: "p * c < 0 \<longleftrightarrow> p < 0"
    using assms(1) by (simp add: mult_less_0_iff)
  show ?thesis
    unfolding round_double_def Let_def a s round_mag_scale[OF assms] ..
qed

lemma round_double_is_double:
  assumes "is_double k"
  shows "round_double k 1 = Fin k"
proof -
  from assms obtain m e where k: "\<bar>k\<bar> = m * 2 ^ e" "0 \<le> m" "m < 2 ^ 53"
    "\<bar>k\<bar> < overflow_threshold"
    unfolding is_double_def by blast
  have t: "m * 2 ^ e < overflow_threshold"
    using k(1,4) by simp
  note r = round_double_exact[OF k(2,3) t]
  show ?thesis
  proof (cases "0 \<le> k")
    case True
    then have "k = m * 2 ^ e" using k(1) by simp
    then show ?thesis using r(1) by simp
  next
    case False
    then have "k = - (m * 2 ^ e)" using k(1) by simp
    then show ?thesis using r(2) by simp
  qed
qed

lemma sum_list_lower:
  fixes ks :: "int list"
  assumes "\<forall>k\<in>set ks. c \<le> k"
  shows "c * int (length ks) \<le> sum_list ks"
  using assms
proof (induction ks)
  case Nil
  then show ?case by simp
next
  case (Cons k ks)
  then have "c * int (length ks) \<le> sum_list ks" "c \<le> k" by simp_all
  then show ?case by (simp add: algebra_simps)
qed

lemma sum_list_upper:
  fixes ks :: "int list"
  assumes "\<forall>k\<in>set ks. k \<le> c"
  shows "sum_list ks \<le> c * int (length ks)"
  using assms
proof (induction ks)
  case Nil
  then show ?case by simp
next
  case (Cons k ks)
  then have "sum_list ks \<le> c * int (length ks)" "k \<le> c" by simp_all
  then show ?case by (simp add: algebra_simps)
qed

lemma js_le_Fin:
  "js_le (Fin a) (Fin b) \<longleftrightarrow> a \<le> b"
  by (auto simp add: js_le_def)

lemma mean_of_exact_sum:
  assumes "ks \<noteq> []" "\<forall>k\<in>set ks. is_double k"
  shows "js_le (Math_min (map Fin ks)) (js_div_length (Fin (sum_list ks)) (length ks))"
    and "js_le (js_div_length (Fin (sum_list ks)) (length ks)) (Math_max (map Fin ks))"
proof -
  let ?vs = "map Fin ks"
  let ?n = "int (length ks)"
  have ne: "?vs \<noteq> []" using assms(1) by simp
  have nn: "\<forall>v\<in>set ?vs. v \<noteq> NaN" by auto
  have n: "0 < ?n" using assms(1) by simp
  have d: "js_div_length (Fin (sum_list ks)) (length ks) = round_double (sum_list ks) ?n"
    using assms(1) by simp
  have fixed: "round_double (k * ?n) ?n = Fin k" if "k \<in> set ks" for k
  proof -
    have "round_double (k * ?n) (1 * ?n) = round_double k 1"
      using n by (intro round_double_scale) simp_all
    then show ?thesis
      using that assms(2) by (simp add: round_double_is_double)
  qed
  from Math_min_least[OF ne nn] obtain lo where lo: "lo \<in> set ks" "Math_min ?vs = Fin lo"
    "\<forall>k\<in>set ks. lo \<le> k"
    by (auto simp add: js_le_Fin)
  have "lo * ?n \<le> sum_list ks"
    using lo(3) by (rule sum_list_lower)
  then have "js_le (round_double (lo * ?n) ?n) (round_double (sum_list ks) ?n)"
    using n by (intro round_double_mono)
  then show "js_le (Math_min ?vs) (js_div_length (Fin (sum_list ks)) (length ks))"
    unfolding d lo(2) fixed[OF lo(1)] .
  from Math_max_greatest[OF ne nn] obtain hi where hi: "hi \<in> set ks" "Math_max ?vs = Fin hi"
    "\<forall>k\<in>set ks. k \<le> hi"
    by (auto simp add: js_le_Fin)
  have "sum_list ks \<le> hi * ?n"
    using hi(3) by (rule sum_list_upper)
  then have "js_le (round_double (sum_list ks) ?n) (round_double (hi * ?n) ?n)"
    using n by (intro round_double_mono)
  then show "js_le (js_div_length (Fin (sum_list ks)) (length ks)) (Math_max ?vs)"
    unfolding d hi(2) fixed[OF hi(1)] .
qed

section \<open>The statistics of the whole dataset\<close>

lemma numeric_rows_all:
  "\<forall>r\<in>set rows. is_valid_number (obj_get r y) \<Longrightarrow> numeric_rows rows y = rows"
  by (simp add: numeric_rows_def)

lemma length_projection:
  assumes "x \<noteq> []" "y \<noteq> []"
  shows "length (processedData rows x y) = min 100 (length (numeric_rows rows y))"
  using assms by (simp add: processedData_projection_spec projection_spec_def min.commute)

text \<open>
  Claim C3, amended. For a chosen (non-empty) Y column the statistics are absent exactly
  when no row of the dataset has a Number other than NaN in that column. Otherwise the
  count is the number of such rows over the whole dataset, the minimum and the maximum are
  values of the column that bound all its values, so the minimum is at most the maximum,
  and the mean is the quotient, rounded as a double, of the sum by the count, the sum
  being formed from 0 by adding the values in row order, each addition rounded. The mean
  lies between the minimum and the maximum whenever the values are finite and that sum is
  their exact sum. A dataset of 150 rows that all have a Number other than NaN in the
  Y column has, for non-empty axis selections, a projection of exactly 100 rows and a
  count of 150.
\<close>

theorem summary_statistics:
  "(y \<noteq> [] \<longrightarrow>
      (yAxisStats rows y = None \<longleftrightarrow> numeric_rows rows y = []) \<and>
      (\<forall>s. yAxisStats rows y = Some s \<longrightarrow>
         count s = length (numeric_rows rows y) \<and> 0 < count s \<and>
         min_val s \<in> set (y_values rows y) \<and> (\<forall>v\<in>set (y_values rows y). js_le (min_val s) v) \<and>
         max_val s \<in> set (y_values rows y) \<and> (\<forall>v\<in>set (y_values rows y). js_le v (max_val s)) \<and>
         js_le (min_val s) (max_val s) \<and>
         avg s = js_div_length (foldl js_add (Fin 0) (y_values rows y)) (count s) \<and>
         (\<forall>ks. y_values rows y = map Fin ks \<and> (\<forall>k\<in>set ks. is_double k) \<and>
               foldl js_add (Fin 0) (map Fin ks) = Fin (sum_list ks) \<longrightarrow>
               js_le (min_val s) (avg s) \<and> js_le (avg s) (max_val s)))) \<and>
   (x \<noteq> [] \<and> y \<noteq> [] \<and> length rows = 150 \<and> (\<forall>r\<in>set rows. is_valid_number (obj_get r y)) \<longrightarrow>
      length (processedData rows x y) = 100 \<and> map_option count (yAxisStats rows y) = Some 150)"
proof (intro conjI impI allI)
  assume y: "y \<noteq> []"
  show "yAxisStats rows y = None \<longleftrightarrow> numeric_rows rows y = []"
    by (simp add: yAxisStats_y_values[OF y] y_values_def)
next
  fix s
  assume y: "y \<noteq> []" and s: "yAxisStats rows y = Some s"
  let ?vs = "y_values rows y"
  have ne: "?vs \<noteq> []"
    using s by (auto simp add: yAxisStats_y_values[OF y] split: if_splits)
  have sv: "s = \<lparr>min_val = Math_min ?vs, max_val = Math_max ?vs,
                  avg = js_div_length (foldl js_add (Fin 0) ?vs) (length ?vs),
                  count = length ?vs\<rparr>"
    using s ne by (simp add: yAxisStats_y_values[OF y])
  have f: "min_val s = Math_min ?vs" "max_val s = Math_max ?vs" "count s = length ?vs"
    "avg s = js_div_length (foldl js_add (Fin 0) ?vs) (length ?vs)"
    by (simp_all add: sv)
  note nn = y_values_not_NaN[of rows y]
  note lo = Math_min_least[OF ne nn]
  note hi = Math_max_greatest[OF ne nn]
  show c: "count s = length (numeric_rows rows y)"
    by (simp add: f(3) y_values_def)
  show "0 < count s"
    using ne by (simp add: f(3))
  show "min_val s \<in> set ?vs"
    unfolding f(1) by (rule lo(1))
  show "\<forall>v\<in>set ?vs. js_le (min_val s) v"
    unfolding f(1) by (rule lo(2))
  show "max_val s \<in> set ?vs"
    unfolding f(2) by (rule hi(1))
  show "\<forall>v\<in>set ?vs. js_le v (max_val s)"
    unfolding f(2) by (rule hi(2))
  show "js_le (min_val s) (max_val s)"
    unfolding f(1,2) using lo(2) hi(1) by blast
  show "avg s = js_div_length (foldl js_add (Fin 0) ?vs) (count s)"
    by (simp only: f(3,4))
next
  fix s ks
  assume y: "y \<noteq> []" and s: "yAxisStats rows y = Some s"
    and k: "y_values rows y = map Fin ks \<and> (\<forall>k\<in>set ks. is_double k) \<and>
               foldl js_add (Fin 0) (map Fin ks) = Fin (sum_list ks)"
  let ?vs = "y_values rows y"
  have ne: "?vs \<noteq> []"
    using s by (auto simp add: yAxisStats_y_values[OF y] split: if_splits)
  have sv: "s = \<lparr>min_val = Math_min ?vs, max_val = Math_max ?vs,
                  avg = js_div_length (foldl js_add (Fin 0) ?vs) (length ?vs),
                  count = length ?vs\<rparr>"
    using s ne by (simp add: yAxisStats_y_values[OF y])
  have kn: "ks \<noteq> []"
    using ne k by auto
  have a: "avg s = js_div_length (Fin (sum_list ks)) (length ks)"
    using k by (simp add: sv)
  have m: "min_val s = Math_min (map Fin ks)" "max_val s = Math_max (map Fin ks)"
    using k by (simp_all add: sv)
  from k have d: "\<forall>k\<in>set ks. is_double k" by blast
  show "js_le (min_val s) (avg s)"
    unfolding a m by (rule mean_of_exact_sum(1)[OF kn d])
  show "js_le (avg s) (max_val s)"
    unfolding a m by (rule mean_of_exact_sum(2)[OF kn d])
next
  assume a: "x \<noteq> [] \<and> y \<noteq> [] \<and> length rows = 150 \<and> (\<forall>r\<in>set rows. is_valid_number (obj_get r y))"
  then have n: "numeric_rows rows y = rows"
    by (simp add: numeric_rows_all)
  show "length (processedData rows x y) = 100"
    using a by (simp add: length_projection n)
  have "y_values rows y \<noteq> []"
    using a by (auto simp add: y_values_def n)
  then show "map_option count (yAxisStats rows y) = Some 150"
    using a by (simp add: yAxisStats_y_values y_values_def n)
qed

section \<open>Rounding at a given binade\<close>

lemma less_times_if:
  fixes a d k :: int
  assumes "0 < d" "a div d < k"
  shows "a < k * d"
proof (rule ccontr)
  assume "\<not> a < k * d"
  then have "k * d \<le> a" by simp
  then have "k \<le> a div d"
    using assms(1) by (intro le_div_if)
  then show False using assms(2) by simp
qed

lemma bit_length_shift_div:
  assumes "0 < d" "2 ^ k \<le> a div d" "a div d < 2 ^ Suc k"
  shows "bit_length ((a * 2 ^ e) div d) = Suc (k + e)"
proof (rule bit_length_unique)
  have "2 ^ k * d \<le> a div d * d"
    using assms(1,2) by (intro mult_right_mono) simp_all
  also have "\<dots> \<le> a"
    using assms(1) by (rule div_times_le)
  finally have "2 ^ k * d * 2 ^ e \<le> a * 2 ^ e"
    by (intro mult_right_mono) simp_all
  moreover have "(2::int) ^ k * d * 2 ^ e = 2 ^ (k + e) * d"
    by (simp add: power_add)
  ultimately have "2 ^ (k + e) * d \<le> a * 2 ^ e"
    by (simp only:)
  then show "2 ^ (k + e) \<le> a * 2 ^ e div d"
    using assms(1) by (intro le_div_if)
next
  have "a < 2 ^ Suc k * d"
    using assms(1,3) by (rule less_times_if)
  then have "a * 2 ^ e < 2 ^ Suc k * d * 2 ^ e"
    by (intro mult_strict_right_mono) simp_all
  moreover have "(2::int) ^ Suc k * d * 2 ^ e = 2 ^ Suc (k + e) * d"
    by (simp add: power_add)
  ultimately have "a * 2 ^ e < 2 ^ Suc (k + e) * d"
    by (simp only:)
  then show "a * 2 ^ e div d < 2 ^ Suc (k + e)"
    using assms(1) by (intro div_less_if)
qed

text \<open>
  A quotient whose integer part has \<open>k + 1 \<ge> 53\<close> bits is rounded to a multiple of
  \<open>2\<^sup>k\<^sup>-\<^sup>5\<^sup>2\<close>, and multiplying it by a power of two multiplies the rounded value.
\<close>

lemma round_mag_binade:
  assumes "0 < d" "2 ^ k \<le> a div d" "a div d < 2 ^ Suc k" "52 \<le> k"
  shows "round_mag (a * 2 ^ e) d = round_half_even a (d * 2 ^ (k - 52)) * 2 ^ (k - 52) * 2 ^ e"
proof -
  have b: "bit_length ((a * 2 ^ e) div d) = Suc (k + e)"
    using assms(1,2,3) by (rule bit_length_shift_div)
  have s: "Suc (k + e) - 53 = (k - 52) + e"
    using assms(4) by simp
  have z: "0 < (2::int) ^ e"
    by simp
  have r: "round_half_even (a * 2 ^ e) ((d * 2 ^ (k - 52)) * 2 ^ e) = round_half_even a (d * 2 ^ (k - 52))"
    by (rule round_half_even_scale[OF z])
  have p: "(2::int) ^ (k - 52 + e) = 2 ^ (k - 52) * 2 ^ e"
    by (rule power_add)
  have r': "round_half_even (a * 2 ^ e) (d * (2 ^ (k - 52) * 2 ^ e)) = round_half_even a (d * 2 ^ (k - 52))"
    using r by (simp only: mult.assoc)
  show ?thesis
    unfolding round_mag_def Let_def b s p r' by (simp only: mult.assoc)
qed

lemma below_threshold:
  assumes "m < 2 ^ j" "j + e < 2098"
  shows "m * 2 ^ e < overflow_threshold"
proof -
  have "m * 2 ^ e < 2 ^ j * 2 ^ e"
    using assms(1) by (intro mult_strict_right_mono) simp_all
  also have "(2::int) ^ j * 2 ^ e = 2 ^ (j + e)"
    by (rule power_add[symmetric])
  also have "(2::int) ^ (j + e) < 2 ^ 2098"
    using assms(2) by (intro power_strict_increasing) simp_all
  finally show ?thesis
    unfolding overflow_threshold_def .
qed

lemma round_double_binade:
  assumes "0 \<le> a" "0 < d" "2 ^ k \<le> a div d" "a div d < 2 ^ Suc k" "52 \<le> k"
    and "round_half_even a (d * 2 ^ (k - 52)) * 2 ^ (k - 52) = m" "m < 2 ^ j" "j + e < 2098"
  shows "round_double (a * 2 ^ e) d = Fin (m * 2 ^ e)"
proof -
  have n: "0 \<le> a * 2 ^ e" using assms(1) by simp
  then have ab: "\<bar>a * 2 ^ e\<bar> = a * 2 ^ e" by simp
  have r: "round_mag (a * 2 ^ e) d = m * 2 ^ e"
    using round_mag_binade[OF assms(2,3,4,5), of e] assms(6) by simp
  have t: "m * 2 ^ e < overflow_threshold"
    using assms(7,8) by (rule below_threshold)
  show ?thesis
    unfolding round_double_def Let_def ab r using t n by simp
qed

section \<open>Worked sums\<close>

lemma small_integer_units:
  assumes "0 \<le> n" "n < 2 ^ 53"
  shows "round_double (n * 2 ^ unit_exp) 1 = Fin (n * 2 ^ unit_exp)"
proof -
  have "n * 2 ^ unit_exp < overflow_threshold"
    using assms(2) by (rule below_threshold) (simp add: unit_exp_def)
  with assms show ?thesis
    by (intro round_double_exact)
qed

text \<open>The sum and the mean of 10, 30 and 20.\<close>

lemma sum_10_30_20:
  "foldl js_add (Fin 0) [Fin (10 * 2 ^ unit_exp), Fin (30 * 2 ^ unit_exp), Fin (20 * 2 ^ unit_exp)] =
     Fin (60 * 2 ^ unit_exp)"
proof -
  have 1: "js_add (Fin 0) (Fin (10 * 2 ^ unit_exp)) = Fin (10 * 2 ^ unit_exp)"
    using small_integer_units[of 10] by simp
  have "(10::int) * 2 ^ unit_exp + 30 * 2 ^ unit_exp = 40 * 2 ^ unit_exp"
    by simp
  then have 2: "js_add (Fin (10 * 2 ^ unit_exp)) (Fin (30 * 2 ^ unit_exp)) = Fin (40 * 2 ^ unit_exp)"
    using small_integer_units[of 40] by simp
  have "(40::int) * 2 ^ unit_exp + 20 * 2 ^ unit_exp = 60 * 2 ^ unit_exp"
    by simp
  then have 3: "js_add (Fin (40 * 2 ^ unit_exp)) (Fin (20 * 2 ^ unit_exp)) = Fin (60 * 2 ^ unit_exp)"
    using small_integer_units[of 60] by simp
  show ?thesis
    by (simp only: foldl.simps 1 2 3)
qed

lemma mean_10_30_20:
  "js_div_length (Fin (60 * 2 ^ unit_exp)) 3 = Fin (20 * 2 ^ unit_exp)"
proof -
  have "round_double ((20 * 2 ^ unit_exp) * 3) (1 * 3) = round_double (20 * 2 ^ unit_exp) 1"
    by (rule round_double_scale) simp_all
  moreover have "(20 * 2 ^ unit_exp) * 3 = (60::int) * 2 ^ unit_exp"
    by simp
  ultimately have "round_double (60 * 2 ^ unit_exp) 3 = round_double (20 * 2 ^ unit_exp) 1"
    by simp
  then show ?thesis
    using small_integer_units[of 20] by simp
qed

lemma min_max_10_30_20:
  "Math_min [Fin (10 * 2 ^ unit_exp), Fin (30 * 2 ^ unit_exp), Fin (20 * 2 ^ unit_exp)] =
     Fin (10 * 2 ^ unit_exp)"
  "Math_max [Fin (10 * 2 ^ unit_exp), Fin (30 * 2 ^ unit_exp), Fin (20 * 2 ^ unit_exp)] =
     Fin (30 * 2 ^ unit_exp)"
  by (simp_all add: Math_min_def Math_max_def js_min2_def js_max2_def)

lemma is_double_small_integer:
  assumes "0 \<le> n" "n < 2 ^ 53"
  shows "is_double (n * 2 ^ unit_exp)"
proof -
  have t: "n * 2 ^ unit_exp < overflow_threshold"
    using assms(2) by (rule below_threshold) (simp add: unit_exp_def)
  have a: "\<bar>n * 2 ^ unit_exp\<bar> = n * 2 ^ unit_exp"
    using assms(1) by simp
  have "\<bar>n * 2 ^ unit_exp\<bar> = n * 2 ^ unit_exp \<and> 0 \<le> n \<and> n < 2 ^ 53 \<and>
      \<bar>n * 2 ^ unit_exp\<bar> < overflow_threshold"
    unfolding a using assms t by simp
  then show ?thesis
    unfolding is_double_def by (intro exI[of _ n] exI[of _ unit_exp])
qed

text \<open>The sum and the mean of three times the double nearest to 0.1.\<close>

lemma tenth_steps:
  assumes "e + 55 < 2098"
  shows "round_double (7205759403792794 * 2 ^ e) 1 = Fin (7205759403792794 * 2 ^ e)"
    and "round_double (14411518807585588 * 2 ^ e) 1 = Fin (14411518807585588 * 2 ^ e)"
    and "round_double (21617278211378382 * 2 ^ e) 1 = Fin (21617278211378384 * 2 ^ e)"
    and "round_double (21617278211378384 * 2 ^ e) 3 = Fin (7205759403792795 * 2 ^ e)"
    and "round_double (72057594037927936 * 2 ^ e) 10 = Fin (7205759403792794 * 2 ^ e)"
proof -
  show "round_double (7205759403792794 * 2 ^ e) 1 = Fin (7205759403792794 * 2 ^ e)"
    by (rule round_double_binade[where k = 52 and j = 53])
      (use assms in \<open>simp_all add: round_half_even_def\<close>)
  show "round_double (14411518807585588 * 2 ^ e) 1 = Fin (14411518807585588 * 2 ^ e)"
    by (rule round_double_binade[where k = 53 and j = 54])
      (use assms in \<open>simp_all add: round_half_even_def\<close>)
  show "round_double (21617278211378382 * 2 ^ e) 1 = Fin (21617278211378384 * 2 ^ e)"
    by (rule round_double_binade[where k = 54 and j = 55])
      (use assms in \<open>simp_all add: round_half_even_def\<close>)
  show "round_double (21617278211378384 * 2 ^ e) 3 = Fin (7205759403792795 * 2 ^ e)"
    by (rule round_double_binade[where k = 52 and j = 53])
      (use assms in \<open>simp_all add: round_half_even_def\<close>)
  show "round_double (72057594037927936 * 2 ^ e) 10 = Fin (7205759403792794 * 2 ^ e)"
    by (rule round_double_binade[where k = 52 and j = 53])
      (use assms in \<open>simp_all add: round_half_even_def\<close>)
qed

lemma tenth_exponent:
  "unit_exp - 56 + 55 < 2098" "unit_exp = 56 + (unit_exp - 56)"
  by (simp_all add: unit_exp_def)

lemma sum_of_three_tenths:
  "foldl js_add (Fin 0)
     [Fin (7205759403792794 * 2 ^ (unit_exp - 56)), Fin (7205759403792794 * 2 ^ (unit_exp - 56)),
      Fin (7205759403792794 * 2 ^ (unit_exp - 56))] =
   Fin (21617278211378384 * 2 ^ (unit_exp - 56))"
proof -
  note t = tenth_steps[OF tenth_exponent(1)]
  have 1: "js_add (Fin 0) (Fin (7205759403792794 * 2 ^ (unit_exp - 56))) =
      Fin (7205759403792794 * 2 ^ (unit_exp - 56))"
    using t(1) by simp
  have "(7205759403792794::int) * 2 ^ (unit_exp - 56) + 7205759403792794 * 2 ^ (unit_exp - 56) =
      14411518807585588 * 2 ^ (unit_exp - 56)"
    by simp
  then have 2: "js_add (Fin (7205759403792794 * 2 ^ (unit_exp - 56)))
      (Fin (7205759403792794 * 2 ^ (unit_exp - 56))) = Fin (14411518807585588 * 2 ^ (unit_exp - 56))"
    using t(2) by simp
  have "(14411518807585588::int) * 2 ^ (unit_exp - 56) + 7205759403792794 * 2 ^ (unit_exp - 56) =
      21617278211378382 * 2 ^ (unit_exp - 56)"
    by simp
  then have 3: "js_add (Fin (14411518807585588 * 2 ^ (unit_exp - 56)))
      (Fin (7205759403792794 * 2 ^ (unit_exp - 56))) = Fin (21617278211378384 * 2 ^ (unit_exp - 56))"
    using t(3) by simp
  show ?thesis
    by (simp only: foldl.simps 1 2 3)
qed

lemma mean_of_three_tenths:
  "js_div_length (Fin (21617278211378384 * 2 ^ (unit_exp - 56))) 3 =
     Fin (7205759403792795 * 2 ^ (unit_exp - 56))"
  using tenth_steps(4)[OF tenth_exponent(1)] by simp

lemma StringToNumber_tenth:
  "StringToNumber ''0.1'' = Fin (7205759403792794 * 2 ^ (unit_exp - 56))"
proof -
  have t: "trim ''0.1'' = ''0.1''" by code_simp
  have r: "radix_of_prefix ''0.1'' = None" by code_simp
  have p: "parse_unsigned_decimal ''0.1'' = Some (1, - 1)" by code_simp
  have "StringToNumber ''0.1'' = decimal_to_double False 1 (- 1)"
    by (simp add: StringToNumber_def t r parse_signed_decimal_def p)
  also have "\<dots> = round_double (2 ^ unit_exp) 10"
    by (simp add: decimal_to_double_def)
  also have "(2::int) ^ unit_exp = 2 ^ (56 + (unit_exp - 56))"
    using tenth_exponent(2) by (rule arg_cong)
  also have "\<dots> = 2 ^ 56 * 2 ^ (unit_exp - 56)"
    by (rule power_add)
  also have "(2::int) ^ 56 = 72057594037927936"
    by simp
  finally show ?thesis
    using tenth_steps(5)[OF tenth_exponent(1)] by simp
qed

section \<open>The statistics on worked datasets\<close>

lemma y_values_amounts:
  "y_values [[(''Name'', Str ''A''), (''Amount'', Num (Fin (10 * 2 ^ unit_exp)))],
             [(''Name'', Str ''B''), (''Amount'', Num (Fin (30 * 2 ^ unit_exp)))],
             [(''Name'', Str ''C''), (''Amount'', Num (Fin (20 * 2 ^ unit_exp)))]] ''Amount'' =
     map Fin [10 * 2 ^ unit_exp, 30 * 2 ^ unit_exp, 20 * 2 ^ unit_exp]"
  by (simp add: y_values_def numeric_rows_def y_value_def obj_get_def is_valid_number_iff)

lemma yAxisStats_amounts:
  "yAxisStats [[(''Name'', Str ''A''), (''Amount'', Num (Fin (10 * 2 ^ unit_exp)))],
               [(''Name'', Str ''B''), (''Amount'', Num (Fin (30 * 2 ^ unit_exp)))],
               [(''Name'', Str ''C''), (''Amount'', Num (Fin (20 * 2 ^ unit_exp)))]] ''Amount'' =
     Some \<lparr>min_val = Fin (10 * 2 ^ unit_exp), max_val = Fin (30 * 2 ^ unit_exp),
            avg = Fin (20 * 2 ^ unit_exp), count = 3\<rparr>"
proof -
  have y: "''Amount'' \<noteq> []" by simp
  show ?thesis
    unfolding yAxisStats_y_values[OF y] y_values_amounts
    using sum_10_30_20 mean_10_30_20 min_max_10_30_20 by simp
qed

theorem summary_statistics_witness:
  "''Amount'' \<noteq> [] \<and>
   yAxisStats [[(''Name'', Str ''A''), (''Amount'', Num (Fin (10 * 2 ^ unit_exp)))],
               [(''Name'', Str ''B''), (''Amount'', Num (Fin (30 * 2 ^ unit_exp)))],
               [(''Name'', Str ''C''), (''Amount'', Num (Fin (20 * 2 ^ unit_exp)))]] ''Amount'' =
     Some \<lparr>min_val = Fin (10 * 2 ^ unit_exp), max_val = Fin (30 * 2 ^ unit_exp),
            avg = Fin (20 * 2 ^ unit_exp), count = 3\<rparr> \<and>
   is_double (10 * 2 ^ unit_exp) \<and> is_double (30 * 2 ^ unit_exp) \<and>
   is_double (20 * 2 ^ unit_exp) \<and>
   foldl js_add (Fin 0) (map Fin [10 * 2 ^ unit_exp, 30 * 2 ^ unit_exp, 20 * 2 ^ unit_exp]) =
     Fin (sum_list [10 * 2 ^ unit_exp, 30 * 2 ^ unit_exp, 20 * 2 ^ unit_exp]) \<and>
   js_le (Fin (10 * 2 ^ unit_exp)) (Fin (20 * 2 ^ unit_exp)) \<and>
   js_le (Fin (20 * 2 ^ unit_exp)) (Fin (30 * 2 ^ unit_exp)) \<and>
   length (replicate 150 [(''v'', Num (Fin 0))]) = 150 \<and>
   is_valid_number (obj_get [(''v'', Num (Fin 0))] ''v'') \<and>
   length (processedData (replicate 150 [(''v'', Num (Fin 0))]) ''v'' ''v'') = 100 \<and>
   map_option count (yAxisStats (replicate 150 [(''v'', Num (Fin 0))]) ''v'') = Some 150"
proof -
  let ?rows = "[[(''Name'', Str ''A''), (''Amount'', Num (Fin (10 * 2 ^ unit_exp)))],
               [(''Name'', Str ''B''), (''Amount'', Num (Fin (30 * 2 ^ unit_exp)))],
               [(''Name'', Str ''C''), (''Amount'', Num (Fin (20 * 2 ^ unit_exp)))]]"
  let ?ks = "[10 * 2 ^ unit_exp, 30 * 2 ^ unit_exp, 20 * 2 ^ unit_exp] :: int list"
  let ?s = "\<lparr>min_val = Fin (10 * 2 ^ unit_exp), max_val = Fin (30 * 2 ^ unit_exp),
            avg = Fin (20 * 2 ^ unit_exp), count = 3\<rparr>"
  let ?many = "replicate 150 [(''v'', Num (Fin 0))]"
  note t = summary_statistics[of "''Amount''" ?rows "''v''"]
  note u = summary_statistics[of "''v''" ?many "''v''"]
  have y: "''Amount'' \<noteq> []" by simp
  have d: "\<forall>k\<in>set ?ks. is_double k"
    using is_double_small_integer[of 10] is_double_small_integer[of 30]
      is_double_small_integer[of 20] by simp
  have e: "foldl js_add (Fin 0) (map Fin ?ks) = Fin (sum_list ?ks)"
    using sum_10_30_20 by simp
  have h: "y_values ?rows ''Amount'' = map Fin ?ks \<and> (\<forall>k\<in>set ?ks. is_double k) \<and>
      foldl js_add (Fin 0) (map Fin ?ks) = Fin (sum_list ?ks)"
    using y_values_amounts d e by blast
  from t y yAxisStats_amounts h
  have b: "js_le (min_val ?s) (avg ?s) \<and> js_le (avg ?s) (max_val ?s)"
    by blast
  have v: "''v'' \<noteq> [] \<and> ''v'' \<noteq> [] \<and> length ?many = 150 \<and>
      (\<forall>r\<in>set ?many. is_valid_number (obj_get r ''v''))"
    by (simp add: obj_get_def is_valid_number_iff)
  from u v have m: "length (processedData ?many ''v'' ''v'') = 100 \<and>
      map_option count (yAxisStats ?many ''v'') = Some 150"
    by blast
  show ?thesis
    using y yAxisStats_amounts d e b v m by simp
qed

lemma parse_infinities:
  "parseCSVFile (OnLoad (Some (''v'' @ newline # ''Infinity'' @ newline # ''-Infinity''))) =
     Inr [[(''v'', Num PosInf)], [(''v'', Num NegInf)]]"
  by code_simp

lemma yAxisStats_infinities:
  "yAxisStats [[(''v'', Num PosInf)], [(''v'', Num NegInf)]] ''v'' =
     Some \<lparr>min_val = NegInf, max_val = PosInf, avg = NaN, count = 2\<rparr>"
  by code_simp

lemma yAxisStats_tenths:
  "yAxisStats [[(''v'', Num (Fin (7205759403792794 * 2 ^ (unit_exp - 56))))],
               [(''v'', Num (Fin (7205759403792794 * 2 ^ (unit_exp - 56))))],
               [(''v'', Num (Fin (7205759403792794 * 2 ^ (unit_exp - 56))))]] ''v'' =
     Some \<lparr>min_val = Fin (7205759403792794 * 2 ^ (unit_exp - 56)),
            max_val = Fin (7205759403792794 * 2 ^ (unit_exp - 56)),
            avg = Fin (7205759403792795 * 2 ^ (unit_exp - 56)), count = 3\<rparr>"
proof -
  have y: "''v'' \<noteq> []" by simp
  have v: "y_values [[(''v'', Num (Fin (7205759403792794 * 2 ^ (unit_exp - 56))))],
               [(''v'', Num (Fin (7205759403792794 * 2 ^ (unit_exp - 56))))],
               [(''v'', Num (Fin (7205759403792794 * 2 ^ (unit_exp - 56))))]] ''v'' =
      [Fin (7205759403792794 * 2 ^ (unit_exp - 56)), Fin (7205759403792794 * 2 ^ (unit_exp - 56)),
       Fin (7205759403792794 * 2 ^ (unit_exp - 56))]"
    by (simp add: y_values_def numeric_rows_def y_value_def obj_get_def is_valid_number_iff)
  show ?thesis
    unfolding yAxisStats_y_values[OF y] v
    using sum_of_three_tenths mean_of_three_tenths
    by (simp add: Math_min_def Math_max_def js_min2_def js_max2_def)
qed

text \<open>
  Claim C3 as stated fails on two datasets. The CSV text with the lines \<open>v\<close>, \<open>Infinity\<close>,
  \<open>-Infinity\<close> gives two numeric rows whose sum, and so whose mean, is NaN, which no
  comparison puts between the minimum and the maximum. Three rows with the value 0.1 (the
  double \<open>7205759403792794 \<times> 2\<^sup>-\<^sup>5\<^sup>6\<close>) have the rounded sum \<open>21617278211378384 \<times> 2\<^sup>-\<^sup>5\<^sup>6\<close> and the
  mean \<open>7205759403792795 \<times> 2\<^sup>-\<^sup>5\<^sup>6\<close>, one unit in the last place above the maximum.
\<close>

theorem summary_statistics_counterexample:
  "parseCSVFile (OnLoad (Some (''v'' @ newline # ''Infinity'' @ newline # ''-Infinity''))) =
     Inr [[(''v'', Num PosInf)], [(''v'', Num NegInf)]] \<and>
   yAxisStats [[(''v'', Num PosInf)], [(''v'', Num NegInf)]] ''v'' =
     Some \<lparr>min_val = NegInf, max_val = PosInf, avg = NaN, count = 2\<rparr> \<and>
   \<not> js_le NegInf NaN \<and>
   StringToNumber ''0.1'' = Fin (7205759403792794 * 2 ^ (unit_exp - 56)) \<and>
   yAxisStats [[(''v'', Num (Fin (7205759403792794 * 2 ^ (unit_exp - 56))))],
               [(''v'', Num (Fin (7205759403792794 * 2 ^ (unit_exp - 56))))],
               [(''v'', Num (Fin (7205759403792794 * 2 ^ (unit_exp - 56))))]] ''v'' =
     Some \<lparr>min_val = Fin (7205759403792794 * 2 ^ (unit_exp - 56)),
            max_val = Fin (7205759403792794 * 2 ^ (unit_exp - 56)),
            avg = Fin (7205759403792795 * 2 ^ (unit_exp - 56)), count = 3\<rparr> \<and>
   \<not> js_le (Fin (7205759403792795 * 2 ^ (unit_exp - 56))) (Fin (7205759403792794 * 2 ^ (unit_exp - 56)))"
proof (intro conjI)
  show "\<not> js_le NegInf NaN"
    by (simp add: js_le_def)
  show "\<not> js_le (Fin (7205759403792795 * 2 ^ (unit_exp - 56))) (Fin (7205759403792794 * 2 ^ (unit_exp - 56)))"
    by (simp add: js_le_def)
qed (rule parse_infinities yAxisStats_infinities StringToNumber_tenth yAxisStats_tenths)+

section \<open>The rows of the CSV parser\<close>

lemma map_of_update_in_place:
  "map_of r k \<noteq> None \<Longrightarrow>
   map_of (map (\<lambda>(k', v'). if k' = k then (k', v) else (k', v')) r) = (map_of r)(k \<mapsto> v)"
proof (induction r)
  case Nil
  then show ?case by simp
next
  case (Cons p r)
  obtain k' v' where p: "p = (k', v')" by (cases p)
  show ?case
  proof (cases "k' = k")
    case True
    show ?thesis
    proof (cases "map_of r k")
      case None
      have "map (\<lambda>(k', v'). if k' = k then (k', v) else (k', v')) r = r"
        using None by (induction r) (auto split: if_splits)
      then show ?thesis using True p by (simp add: fun_eq_iff)
    next
      case (Some w)
      then show ?thesis using Cons.IH True p by (simp add: fun_eq_iff)
    qed
  next
    case False
    then have "map_of r k \<noteq> None" using Cons.prems p by simp
    then show ?thesis using Cons.IH False p by (simp add: fun_eq_iff)
  qed
qed

lemma map_of_insert_index:
  "map_of r k = None \<Longrightarrow> map_of (insert_index n k v r) = (map_of r)(k \<mapsto> v)"
proof (induction r)
  case Nil
  then show ?case by simp
next
  case (Cons p r)
  obtain k' v' where p: "p = (k', v')" by (cases p)
  have ne: "k' \<noteq> k" and r: "map_of r k = None"
    using Cons.prems p by (simp_all split: if_splits)
  show ?case
    using Cons.IH[OF r] ne p
    by (cases "array_index k'") (auto simp add: fun_eq_iff)
qed

lemma map_of_append_new:
  "map_of r k = None \<Longrightarrow> map_of (r @ [(k, v)]) = (map_of r)(k \<mapsto> v)"
  by (induction r) (auto simp add: fun_eq_iff split: if_splits)

text \<open>An assignment changes the value under its key and nothing else.\<close>

lemma map_of_obj_set:
  "map_of (obj_set r k v) = (if k = ''__proto__'' then map_of r else (map_of r)(k \<mapsto> v))"
proof (cases "k = ''__proto__''")
  case True
  then show ?thesis by (simp add: obj_set_def)
next
  case False
  show ?thesis
  proof (cases "map_of r k")
    case None
    show ?thesis
    proof (cases "array_index k")
      case None': None
      have "obj_set r k v = r @ [(k, v)]"
        using False None None' by (simp add: obj_set_def)
      then show ?thesis
        using False map_of_append_new[OF None, of v] by (simp only: if_False)
    next
      case (Some n)
      have "obj_set r k v = insert_index n k v r"
        using False None Some by (simp add: obj_set_def)
      then show ?thesis
        using False map_of_insert_index[OF None, of n v] by (simp only: if_False)
    qed
  next
    case (Some w)
    then show ?thesis
      using False map_of_update_in_place[of r k v] by (simp add: obj_set_def)
  qed
qed

lemma obj_get_obj_set:
  "obj_get (obj_set r k v) h =
     (if h = k \<and> k \<noteq> ''__proto__'' then v else obj_get r h)"
  by (simp add: obj_get_def map_of_obj_set)

lemma keys_dom:
  "set (Object_keys r) = dom (map_of r)"
  by (simp add: Object_keys_def dom_map_of_conv_image_fst)

lemma keys_obj_set:
  "set (Object_keys (obj_set r k v)) =
     (if k = ''__proto__'' then set (Object_keys r) else insert k (set (Object_keys r)))"
  by (simp add: keys_dom map_of_obj_set)

lemma obj_set_new_plain:
  assumes "k \<noteq> ''__proto__''" "array_index k = None" "k \<notin> set (Object_keys r)"
  shows "obj_set r k v = r @ [(k, v)]"
proof -
  have "map_of r k = None"
    using assms(3) by (simp add: keys_dom domIff)
  then show ?thesis
    using assms(1,2) by (simp add: obj_set_def)
qed

text \<open>The row of one more header is the row of the headers before it, with one assignment.\<close>

lemma csv_row_snoc:
  "csv_row (hs @ [h]) values =
     obj_set (csv_row hs values) h (csv_coerce (field_at values (length hs)))"
proof -
  have "zip (hs @ [h]) [0..<length (hs @ [h])] = zip hs [0..<length hs] @ [(h, length hs)]"
    by simp
  then show ?thesis
    by (simp add: csv_row_def)
qed

lemma csv_row_Nil:
  "csv_row [] values = []"
  by (simp add: csv_row_def)

lemma csv_row_keys:
  "set (Object_keys (csv_row hs values)) = set hs - {''__proto__''}"
proof (induction hs rule: rev_induct)
  case Nil
  then show ?case by (simp add: csv_row_Nil Object_keys_def)
next
  case (snoc h hs)
  then show ?case
    by (auto simp add: csv_row_snoc keys_obj_set)
qed

text \<open>Under a header name the row holds the field of the last column with that name.\<close>

lemma csv_row_value:
  assumes "j < length hs" "hs ! j \<noteq> ''__proto__''" "\<forall>k. j < k \<and> k < length hs \<longrightarrow> hs ! k \<noteq> hs ! j"
  shows "obj_get (csv_row hs values) (hs ! j) = csv_coerce (field_at values j)"
  using assms
proof (induction hs rule: rev_induct)
  case Nil
  then show ?case by simp
next
  case (snoc h hs)
  show ?case
  proof (cases "j = length hs")
    case True
    then show ?thesis
      using snoc.prems(2) by (simp add: csv_row_snoc obj_get_obj_set)
  next
    case False
    then have j: "j < length hs" using snoc.prems(1) by simp
    then have e: "(hs @ [h]) ! j = hs ! j" by (simp add: nth_append)
    have "(hs @ [h]) ! length hs \<noteq> (hs @ [h]) ! j"
      using snoc.prems(3)[rule_format, of "length hs"] j by simp
    then have ne: "hs ! j \<noteq> h" using e by simp
    have l: "\<forall>k. j < k \<and> k < length hs \<longrightarrow> hs ! k \<noteq> hs ! j"
    proof (intro allI impI)
      fix k assume k: "j < k \<and> k < length hs"
      then have "(hs @ [h]) ! k \<noteq> (hs @ [h]) ! j"
        using snoc.prems(3) by simp
      then show "hs ! k \<noteq> hs ! j"
        using k e by (simp add: nth_append)
    qed
    have "obj_get (csv_row hs values) (hs ! j) = csv_coerce (field_at values j)"
      using snoc.IH[OF j] snoc.prems(2) l e by simp
    then show ?thesis
      using ne by (simp add: e csv_row_snoc obj_get_obj_set)
  qed
qed

text \<open>Headers that are distinct, are no array indices and are not \<open>__proto__\<close> are the keys, in order.\<close>

lemma csv_row_plain:
  assumes "distinct hs" "\<forall>h\<in>set hs. h \<noteq> ''__proto__'' \<and> array_index h = None"
  shows "csv_row hs values =
           map (\<lambda>j. (hs ! j, csv_coerce (field_at values j))) [0..<length hs]"
  using assms
proof (induction hs rule: rev_induct)
  case Nil
  then show ?case by (simp add: csv_row_Nil)
next
  case (snoc h hs)
  have ih: "csv_row hs values = map (\<lambda>j. (hs ! j, csv_coerce (field_at values j))) [0..<length hs]"
    using snoc by simp
  have "h \<notin> set hs" using snoc.prems(1) by simp
  then have "h \<notin> set (Object_keys (csv_row hs values))"
    by (simp add: csv_row_keys)
  then have "obj_set (csv_row hs values) h (csv_coerce (field_at values (length hs))) =
      csv_row hs values @ [(h, csv_coerce (field_at values (length hs)))]"
    using snoc.prems(2) by (intro obj_set_new_plain) simp_all
  moreover have "map (\<lambda>j. ((hs @ [h]) ! j, csv_coerce (field_at values j))) [0..<length hs] =
      map (\<lambda>j. (hs ! j, csv_coerce (field_at values j))) [0..<length hs]"
    by (simp add: nth_append)
  ultimately show ?case
    by (simp add: csv_row_snoc ih)
qed

lemma csv_row_plain_keys:
  assumes "distinct hs" "\<forall>h\<in>set hs. h \<noteq> ''__proto__'' \<and> array_index h = None"
  shows "Object_keys (csv_row hs values) = hs"
proof -
  have "map fst (map (\<lambda>j. (hs ! j, csv_coerce (field_at values j))) [0..<length hs]) = hs"
    by (simp add: comp_def map_nth)
  then show ?thesis
    by (simp add: csv_row_plain[OF assms] Object_keys_def)
qed

lemma StringToNumber_ten:
  "StringToNumber ''10'' = Fin (10 * 2 ^ unit_exp)"
proof -
  have t: "trim ''10'' = ''10''" by code_simp
  have r: "radix_of_prefix ''10'' = None" by code_simp
  have p: "parse_unsigned_decimal ''10'' = Some (10, 0)" by code_simp
  have "StringToNumber ''10'' = decimal_to_double False 10 0"
    by (simp add: StringToNumber_def t r parse_signed_decimal_def p)
  also have "\<dots> = round_double (10 * 2 ^ unit_exp) 1"
    by (simp add: decimal_to_double_def)
  also have "\<dots> = Fin (10 * 2 ^ unit_exp)"
    by (rule small_integer_units) simp_all
  finally show ?thesis .
qed


text \<open>
  Claim C1. A text whose non-blank lines are a header followed by \<open>N\<close> data lines is parsed
  into exactly \<open>N\<close> rows. The row of a data line has the header names as its keys and holds,
  under each header name, the field of that line in the last column with that name, as a
  Number when the field is not empty and reads as a number and as the string otherwise; a
  column past the end of the line gives the empty string. When the header names are
  distinct and ordinary (not \<open>__proto__\<close>, not an array index) the row is the sequence of the
  header names in their order, each with its field. The fields of a line are those the
  specification's scanner finds (a flag toggled at every double quote, a split at every
  comma met while the flag is off), each trimmed and then stripped of one leading and one
  trailing quote. So a quoted field without inner quotes stays one field, commas included,
  and doubled quotes inside a field are kept as they are.
\<close>

theorem csv_parser_rows_and_fields:
  "(nonblank_lines text = header # body \<longrightarrow>
      (\<exists>rows. parseCSVFile (OnLoad (Some text)) = Inr rows \<and>
              length rows = length body \<and>
              (\<forall>i<length body.
                 set (Object_keys (rows ! i)) = set (parseCSVLine header) - {''__proto__''} \<and>
                 (\<forall>j<length (parseCSVLine header).
                    parseCSVLine header ! j \<noteq> ''__proto__'' \<and>
                    (\<forall>k. j < k \<and> k < length (parseCSVLine header) \<longrightarrow>
                         parseCSVLine header ! k \<noteq> parseCSVLine header ! j) \<longrightarrow>
                    obj_get (rows ! i) (parseCSVLine header ! j) =
                      csv_coerce (field_at (parseCSVLine (body ! i)) j)) \<and>
                 (distinct (parseCSVLine header) \<and>
                  (\<forall>h\<in>set (parseCSVLine header). h \<noteq> ''__proto__'' \<and> array_index h = None) \<longrightarrow>
                    rows ! i =
                      map (\<lambda>j. (parseCSVLine header ! j,
                                 csv_coerce (field_at (parseCSVLine (body ! i)) j)))
                        [0..<length (parseCSVLine header)] \<and>
                    Object_keys (rows ! i) = parseCSVLine header)))) \<and>
   field_at values n = (if n < length values then values ! n else []) \<and>
   csv_coerce fld =
     (if fld = [] \<or> StringToNumber fld = NaN then Str fld else Num (StringToNumber fld)) \<and>
   parseCSVLine line = map (\<lambda>fld. strip_quotes (trim fld)) (scan_fields False [] line) \<and>
   (even (count_list pre dquote) \<and> dquote \<notin> set quoted \<longrightarrow>
      parseCSVLine (pre @ comma # dquote # quoted @ dquote # comma # post) =
        parseCSVLine pre @ quoted # parseCSVLine post) \<and>
   parseCSVLine [dquote, CHR ''a'', dquote, dquote, CHR ''b'', dquote] =
     [[CHR ''a'', dquote, dquote, CHR ''b'']]"
proof (intro conjI impI)
  assume a: "nonblank_lines text = header # body"
  define hs where "hs = parseCSVLine header"
  define rows where "rows = map (\<lambda>line. csv_row hs (parseCSVLine line)) body"
  have p: "parseCSVFile (OnLoad (Some text)) = Inr rows"
    unfolding rows_def hs_def by (rule parseCSVFile_rows[OF a])
  have l: "length rows = length body"
    by (simp add: rows_def)
  have r: "\<forall>i<length body.
             set (Object_keys (rows ! i)) = set hs - {''__proto__''} \<and>
             (\<forall>j<length hs.
                hs ! j \<noteq> ''__proto__'' \<and> (\<forall>k. j < k \<and> k < length hs \<longrightarrow> hs ! k \<noteq> hs ! j) \<longrightarrow>
                obj_get (rows ! i) (hs ! j) = csv_coerce (field_at (parseCSVLine (body ! i)) j)) \<and>
             (distinct hs \<and> (\<forall>h\<in>set hs. h \<noteq> ''__proto__'' \<and> array_index h = None) \<longrightarrow>
                rows ! i =
                  map (\<lambda>j. (hs ! j, csv_coerce (field_at (parseCSVLine (body ! i)) j)))
                    [0..<length hs] \<and>
                Object_keys (rows ! i) = hs)"
  proof (intro allI impI)
    fix i
    assume i: "i < length body"
    have e: "rows ! i = csv_row hs (parseCSVLine (body ! i))"
      by (simp add: rows_def i)
    have k: "set (Object_keys (rows ! i)) = set hs - {''__proto__''}"
      unfolding e by (rule csv_row_keys)
    have v: "\<forall>j<length hs.
                hs ! j \<noteq> ''__proto__'' \<and> (\<forall>k. j < k \<and> k < length hs \<longrightarrow> hs ! k \<noteq> hs ! j) \<longrightarrow>
                obj_get (rows ! i) (hs ! j) = csv_coerce (field_at (parseCSVLine (body ! i)) j)"
    proof (intro allI impI)
      fix j
      assume j: "j < length hs"
        and c: "hs ! j \<noteq> ''__proto__'' \<and> (\<forall>k. j < k \<and> k < length hs \<longrightarrow> hs ! k \<noteq> hs ! j)"
      show "obj_get (rows ! i) (hs ! j) = csv_coerce (field_at (parseCSVLine (body ! i)) j)"
        unfolding e by (rule csv_row_value[OF j conjunct1[OF c] conjunct2[OF c]])
    qed
    have o: "distinct hs \<and> (\<forall>h\<in>set hs. h \<noteq> ''__proto__'' \<and> array_index h = None) \<longrightarrow>
                rows ! i =
                  map (\<lambda>j. (hs ! j, csv_coerce (field_at (parseCSVLine (body ! i)) j)))
                    [0..<length hs] \<and>
                Object_keys (rows ! i) = hs"
    proof (intro impI conjI)
      assume c: "distinct hs \<and> (\<forall>h\<in>set hs. h \<noteq> ''__proto__'' \<and> array_index h = None)"
      show "rows ! i =
              map (\<lambda>j. (hs ! j, csv_coerce (field_at (parseCSVLine (body ! i)) j))) [0..<length hs]"
        unfolding e by (rule csv_row_plain[OF conjunct1[OF c] conjunct2[OF c]])
      show "Object_keys (rows ! i) = hs"
        unfolding e by (rule csv_row_plain_keys[OF conjunct1[OF c] conjunct2[OF c]])
    qed
    show "set (Object_keys (rows ! i)) = set hs - {''__proto__''} \<and>
             (\<forall>j<length hs.
                hs ! j \<noteq> ''__proto__'' \<and> (\<forall>k. j < k \<and> k < length hs \<longrightarrow> hs ! k \<noteq> hs ! j) \<longrightarrow>
                obj_get (rows ! i) (hs ! j) = csv_coerce (field_at (parseCSVLine (body ! i)) j)) \<and>
             (distinct hs \<and> (\<forall>h\<in>set hs. h \<noteq> ''__proto__'' \<and> array_index h = None) \<longrightarrow>
                rows ! i =
                  map (\<lambda>j. (hs ! j, csv_coerce (field_at (parseCSVLine (body ! i)) j)))
                    [0..<length hs] \<and>
                Object_keys (rows ! i) = hs)"
      by (rule conjI[OF k conjI[OF v o]])
  qed
  show "\<exists>rows. parseCSVFile (OnLoad (Some text)) = Inr rows \<and>
              length rows = length body \<and>
              (\<forall>i<length body.
                 set (Object_keys (rows ! i)) = set (parseCSVLine header) - {''__proto__''} \<and>
                 (\<forall>j<length (parseCSVLine header).
                    parseCSVLine header ! j \<noteq> ''__proto__'' \<and>
                    (\<forall>k. j < k \<and> k < length (parseCSVLine header) \<longrightarrow>
                         parseCSVLine header ! k \<noteq> parseCSVLine header ! j) \<longrightarrow>
                    obj_get (rows ! i) (parseCSVLine header ! j) =
                      csv_coerce (field_at (parseCSVLine (body ! i)) j)) \<and>
                 (distinct (parseCSVLine header) \<and>
                  (\<forall>h\<in>set (parseCSVLine header). h \<noteq> ''__proto__'' \<and> array_index h = None) \<longrightarrow>
                    rows ! i =
                      map (\<lambda>j. (parseCSVLine header ! j,
                                 csv_coerce (field_at (parseCSVLine (body ! i)) j)))
                        [0..<length (parseCSVLine header)] \<and>
                    Object_keys (rows ! i) = parseCSVLine header))"
    by (rule exI[of _ rows]) (rule conjI[OF p conjI[OF l r[unfolded hs_def]]])
next
  show "field_at values n = (if n < length values then values ! n else [])"
    by (simp add: field_at_def)
next
  show "csv_coerce fld =
     (if fld = [] \<or> StringToNumber fld = NaN then Str fld else Num (StringToNumber fld))"
    by (simp add: csv_coerce_def isNaN_def)
next
  have "clean_field = (\<lambda>fld. strip_quotes (trim fld))"
    by (rule ext) (simp add: clean_field_def)
  then show "parseCSVLine line = map (\<lambda>fld. strip_quotes (trim fld)) (scan_fields False [] line)"
    by (simp add: parseCSVLine_scan)
next
  assume "even (count_list pre dquote) \<and> dquote \<notin> set quoted"
  then show "parseCSVLine (pre @ comma # dquote # quoted @ dquote # comma # post) =
        parseCSVLine pre @ quoted # parseCSVLine post"
    by (simp add: parseCSVLine_quoted_field)
next
  show "parseCSVLine [dquote, CHR ''a'', dquote, dquote, CHR ''b'', dquote] =
     [[CHR ''a'', dquote, dquote, CHR ''b'']]"
    by (rule parseCSVLine_doubled_quotes)
qed

text \<open>
  A file of a header and two data lines, with a blank line, a carriage return, a quoted
  field holding a comma, a number and a line that is one field short.
\<close>

lemma csv_example_lines:
  "nonblank_lines (''name,city,qty'' @ newline # newline # ''Ann,'' @ dquote # ''Paris, FR'' @
                   dquote # '',10'' @ CHR 0x0D # newline # ''Bob,Rome'' @ [newline]) =
     [''name,city,qty'', ''Ann,'' @ dquote # ''Paris, FR'' @ dquote # '',10'' @ [CHR 0x0D],
      ''Bob,Rome'']"
  by code_simp

lemma csv_example_fields:
  "parseCSVLine ''name,city,qty'' = [''name'', ''city'', ''qty'']"
  "parseCSVLine (''Ann,'' @ dquote # ''Paris, FR'' @ dquote # '',10'' @ [CHR 0x0D]) =
     [''Ann'', ''Paris, FR'', ''10'']"
  "parseCSVLine ''Bob,Rome'' = [''Bob'', ''Rome'']"
  "parseCSVLine ''Ann'' = [''Ann'']"
  "parseCSVLine ''x'' = [''x'']"
  by code_simp+

lemma csv_example_headers:
  "array_index ''name'' = None" "array_index ''city'' = None" "array_index ''qty'' = None"
  by code_simp+

lemma csv_example_strings:
  "StringToNumber ''Ann'' = NaN" "StringToNumber ''Paris, FR'' = NaN"
  "StringToNumber ''Bob'' = NaN" "StringToNumber ''Rome'' = NaN"
  by code_simp+

lemma csv_example_values:
  "csv_coerce ''Ann'' = Str ''Ann''" "csv_coerce ''Paris, FR'' = Str ''Paris, FR''"
  "csv_coerce ''Bob'' = Str ''Bob''" "csv_coerce ''Rome'' = Str ''Rome''"
  "csv_coerce [] = Str []" "csv_coerce ''10'' = Num (Fin (10 * 2 ^ unit_exp))"
  by (simp_all add: csv_coerce_def isNaN_def csv_example_strings StringToNumber_ten)

theorem csv_parser_witness:
  "nonblank_lines (''name,city,qty'' @ newline # newline # ''Ann,'' @ dquote # ''Paris, FR'' @
                   dquote # '',10'' @ CHR 0x0D # newline # ''Bob,Rome'' @ [newline]) =
     [''name,city,qty'', ''Ann,'' @ dquote # ''Paris, FR'' @ dquote # '',10'' @ [CHR 0x0D],
      ''Bob,Rome''] \<and>
   parseCSVFile (OnLoad (Some
       (''name,city,qty'' @ newline # newline # ''Ann,'' @ dquote # ''Paris, FR'' @
        dquote # '',10'' @ CHR 0x0D # newline # ''Bob,Rome'' @ [newline]))) =
     Inr [[(''name'', Str ''Ann''), (''city'', Str ''Paris, FR''),
           (''qty'', Num (Fin (10 * 2 ^ unit_exp)))],
          [(''name'', Str ''Bob''), (''city'', Str ''Rome''), (''qty'', Str [])]] \<and>
   even (count_list ''Ann'' dquote) \<and> dquote \<notin> set ''Paris, FR'' \<and>
   parseCSVLine (''Ann'' @ comma # dquote # ''Paris, FR'' @ dquote # comma # ''x'') =
     [''Ann'', ''Paris, FR'', ''x'']"
proof -
  note t = csv_parser_rows_and_fields
    [of "''name,city,qty'' @ newline # newline # ''Ann,'' @ dquote # ''Paris, FR'' @
         dquote # '',10'' @ CHR 0x0D # newline # ''Bob,Rome'' @ [newline]"
        "''name,city,qty''"
        "[''Ann,'' @ dquote # ''Paris, FR'' @ dquote # '',10'' @ [CHR 0x0D], ''Bob,Rome'']"
        "[''Bob'', ''Rome'']" 2 "''10''" "''x''" "''Ann''" "''Paris, FR''" "''x''"]
  have d: "distinct [''name'', ''city'', ''qty''] \<and>
           (\<forall>h\<in>set [''name'', ''city'', ''qty'']. h \<noteq> ''__proto__'' \<and> array_index h = None)"
    by (simp add: csv_example_headers)
  from t csv_example_lines obtain rows where
    p: "parseCSVFile (OnLoad (Some
          (''name,city,qty'' @ newline # newline # ''Ann,'' @ dquote # ''Paris, FR'' @
           dquote # '',10'' @ CHR 0x0D # newline # ''Bob,Rome'' @ [newline]))) = Inr rows"
    and l: "length rows = 2"
    and r: "\<forall>i<2. distinct (parseCSVLine ''name,city,qty'') \<and>
                   (\<forall>h\<in>set (parseCSVLine ''name,city,qty'').
                       h \<noteq> ''__proto__'' \<and> array_index h = None) \<longrightarrow>
                   rows ! i =
                     map (\<lambda>j. (parseCSVLine ''name,city,qty'' ! j,
                                csv_coerce (field_at (parseCSVLine
                                  ([''Ann,'' @ dquote # ''Paris, FR'' @ dquote # '',10'' @ [CHR 0x0D],
                                    ''Bob,Rome''] ! i)) j)))
                       [0..<length (parseCSVLine ''name,city,qty'')]"
    by auto
  have b0: "[''Ann,'' @ dquote # ''Paris, FR'' @ dquote # '',10'' @ [CHR 0x0D], ''Bob,Rome''] ! 0 =
              ''Ann,'' @ dquote # ''Paris, FR'' @ dquote # '',10'' @ [CHR 0x0D]"
    by (rule nth_Cons_0)
  have b1: "[''Ann,'' @ dquote # ''Paris, FR'' @ dquote # '',10'' @ [CHR 0x0D], ''Bob,Rome''] ! 1 =
              ''Bob,Rome''"
    by simp
  have r0: "rows ! 0 = [(''name'', Str ''Ann''), (''city'', Str ''Paris, FR''),
                        (''qty'', Num (Fin (10 * 2 ^ unit_exp)))]"
    using r[rule_format, of 0, unfolded b0 csv_example_fields] d
    by (simp add: field_at_def csv_example_values upt_rec)
  have r1: "rows ! 1 = [(''name'', Str ''Bob''), (''city'', Str ''Rome''), (''qty'', Str [])]"
    using r[rule_format, of 1, unfolded b1 csv_example_fields] d
    by (simp add: field_at_def csv_example_values upt_rec)
  have "rows = [[(''name'', Str ''Ann''), (''city'', Str ''Paris, FR''),
                 (''qty'', Num (Fin (10 * 2 ^ unit_exp)))],
                [(''name'', Str ''Bob''), (''city'', Str ''Rome''), (''qty'', Str [])]]"
  proof (rule nth_equalityI)
    show "length rows =
            length [[(''name'', Str ''Ann''), (''city'', Str ''Paris, FR''),
                     (''qty'', Num (Fin (10 * 2 ^ unit_exp)))],
                    [(''name'', Str ''Bob''), (''city'', Str ''Rome''), (''qty'', Str [])]]"
      by (simp add: l)
  next
    fix i
    assume "i < length rows"
    then have "i = 0 \<or> i = 1"
      using l by auto
    then show "rows ! i =
                 [[(''name'', Str ''Ann''), (''city'', Str ''Paris, FR''),
                   (''qty'', Num (Fin (10 * 2 ^ unit_exp)))],
                  [(''name'', Str ''Bob''), (''city'', Str ''Rome''), (''qty'', Str [])]] ! i"
      using r0 r1 by auto
  qed
  then show ?thesis
    using p t csv_example_lines csv_example_fields(4,5)
    by simp
qed

end
